theory Spec2Isabelle
  imports Main
begin

section \<open>The object store delegate.ts runs on\<close>

text \<open>
  delegate.ts has three runtime functions: \<open>delegate\<close>, \<open>delegateStatic\<close> and the
  decorator factory \<open>DelegateMethod\<close>. All three read and write properties of
  JavaScript objects, so the embedding starts with the part of the language they touch:
  values, objects with an ordered list of own properties and a prototype link, property
  lookup along the prototype chain, strict-mode assignment, \<open>for ... in\<close> enumeration,
  \<open>Function.prototype.bind\<close> and function calls.

  Scope of the store: every property is a writable data property with a string name
  and every object is extensible (accessors, proxies, frozen objects and symbol-named
  properties, which neither loop visits, are outside the model); numbers are integers;
  the \<open>bind\<close> and \<open>apply\<close> of a function are the built-ins of
  \<open>Function.prototype\<close>, and a value that is not a function has no \<open>bind\<close>.
\<close>

type_synonym addr = nat

datatype val = Undefined | Null | Bool bool | Num int | Str string | Ref addr

datatype error = TypeError

text \<open>
  What a function object does when called: run a body of the host program (known by an
  index into a table of bodies), forward to a bound target (the result of \<open>bind\<close>), or
  run the arrow function that \<open>delegateStatic\<close> creates, which closes over
  \<open>val\<close>, \<open>candidate\<close> and \<open>self\<close>.
\<close>

datatype callable =
    Native nat
  | Bound val val "val list"
  | StaticArrow val val val

record property =
  pval :: val
  enumerable :: bool

record obj =
  proto :: val
  props :: "(string \<times> property) list"
  code :: "callable option"

type_synonym heap = "obj list"

text \<open>The intrinsic prototype objects of the realm live at fixed addresses.\<close>

definition FunctionPrototype :: addr where "FunctionPrototype = 0"
definition BooleanPrototype :: addr where "BooleanPrototype = 1"
definition NumberPrototype :: addr where "NumberPrototype = 2"
definition StringPrototype :: addr where "StringPrototype = 3"

subsection \<open>Prototype chains and property lookup\<close>

text \<open>
  The chain of objects a lookup starting at a reference visits. A JavaScript heap has no
  cyclic chain and no dangling reference, so the walk ends within as many steps as there
  are objects; \<open>None\<close> marks a store that is not a JavaScript heap.
\<close>

fun chain_from :: "nat \<Rightarrow> heap \<Rightarrow> val \<Rightarrow> addr list option" where
  "chain_from n h (Ref a) =
     (if a < length h then
        (case n of
           0 \<Rightarrow> None
         | Suc m \<Rightarrow> map_option ((#) a) (chain_from m h (proto (h ! a))))
      else None)"
| "chain_from n h v = Some []"

definition proto_chain :: "heap \<Rightarrow> val \<Rightarrow> addr list option" where
  "proto_chain h v = chain_from (length h) h v"

text \<open>Decimal numerals, for the index properties of a string.\<close>

function dec :: "nat \<Rightarrow> string" where
  "dec n = (if n < 10 then [char_of (48 + n)] else dec (n div 10) @ [char_of (48 + n mod 10)])"
  by pat_completeness auto
termination
  by (relation "measure id") auto

definition string_props :: "string \<Rightarrow> (string \<times> property) list" where
  "string_props s =
     map (\<lambda>i. (dec i, \<lparr>pval = Str [s ! i], enumerable = True\<rparr>)) [0 ..< length s]
     @ [(''length'', \<lparr>pval = Num (int (length s)), enumerable = False\<rparr>)]"

text \<open>
  A value is read through its object (ToObject): a reference is its own object, a
  primitive is wrapped and has the intrinsic prototype of its type; a string wrapper owns
  its indices and \<open>length\<close>. \<open>undefined\<close> and \<open>null\<close> have no object.
\<close>

fun own_props :: "heap \<Rightarrow> val \<Rightarrow> (string \<times> property) list" where
  "own_props h (Ref a) = (if a < length h then props (h ! a) else [])"
| "own_props h (Str s) = string_props s"
| "own_props h v = []"

fun proto_of :: "heap \<Rightarrow> val \<Rightarrow> val" where
  "proto_of h (Ref a) = (if a < length h then proto (h ! a) else Null)"
| "proto_of h (Bool b) = Ref BooleanPrototype"
| "proto_of h (Num n) = Ref NumberPrototype"
| "proto_of h (Str s) = Ref StringPrototype"
| "proto_of h v = Null"

text \<open>
  Every property visible from a value, nearest first: the own properties, then those of
  each object up the prototype chain.
\<close>

definition inherited :: "heap \<Rightarrow> val \<Rightarrow> (string \<times> property) list" where
  "inherited h v =
     (case proto_chain h (proto_of h v) of
        None \<Rightarrow> []
      | Some as \<Rightarrow> concat (map (\<lambda>a. props (h ! a)) as))"

definition entries :: "heap \<Rightarrow> val \<Rightarrow> (string \<times> property) list" where
  "entries h v = own_props h v @ inherited h v"

text \<open>\<open>v[k]\<close>: a TypeError on \<open>undefined\<close> and \<open>null\<close>, else the nearest property.\<close>

fun get_member :: "heap \<Rightarrow> val \<Rightarrow> string \<Rightarrow> error + val" where
  "get_member h Undefined k = Inl TypeError"
| "get_member h Null k = Inl TypeError"
| "get_member h v k =
     Inr (case map_of (entries h v) k of None \<Rightarrow> Undefined | Some p \<Rightarrow> pval p)"

text \<open>ToBoolean, as \<open>!x\<close> and \<open>x ? a : b\<close> apply it.\<close>

fun truthy :: "val \<Rightarrow> bool" where
  "truthy Undefined = False"
| "truthy Null = False"
| "truthy (Bool b) = b"
| "truthy (Num n) = (n \<noteq> 0)"
| "truthy (Str s) = (s \<noteq> [])"
| "truthy (Ref a) = True"

text \<open>\<open>typeof v == "function"\<close>.\<close>

fun is_function :: "heap \<Rightarrow> val \<Rightarrow> bool" where
  "is_function h (Ref a) = (a < length h \<and> code (h ! a) \<noteq> None)"
| "is_function h v = False"

subsection \<open>Assignment\<close>

text \<open>
  \<open>o[k] = v\<close> in strict mode (delegate.ts is a module). An own property keeps its place
  and its attributes and takes the new value; otherwise a new enumerable own property is
  appended. Assigning on \<open>undefined\<close>, \<open>null\<close> or a primitive raises TypeError.
\<close>

fun set_own :: "(string \<times> property) list \<Rightarrow> string \<Rightarrow> val \<Rightarrow> (string \<times> property) list" where
  "set_own [] k v = [(k, \<lparr>pval = v, enumerable = True\<rparr>)]"
| "set_own ((k', p) # ps) k v =
     (if k' = k then (k', p\<lparr>pval := v\<rparr>) # ps else (k', p) # set_own ps k v)"

fun set_member :: "heap \<Rightarrow> val \<Rightarrow> string \<Rightarrow> val \<Rightarrow> (error + unit) \<times> heap" where
  "set_member h (Ref a) k v =
     (if a < length h
      then (Inr (), h[a := (h ! a)\<lparr>props := set_own (props (h ! a)) k v\<rparr>])
      else (Inl TypeError, h))"
| "set_member h t k v = (Inl TypeError, h)"

subsection \<open>Built-ins the binders call\<close>

text \<open>\<open>Object.getPrototypeOf(v)\<close>.\<close>

fun getPrototypeOf :: "heap \<Rightarrow> val \<Rightarrow> error + val" where
  "getPrototypeOf h Undefined = Inl TypeError"
| "getPrototypeOf h Null = Inl TypeError"
| "getPrototypeOf h v = Inr (proto_of h v)"

text \<open>
  \<open>Object.getOwnPropertyNames(v)\<close>: every own string key, enumerable or not, each
  once, in property order.
\<close>

fun getOwnPropertyNames :: "heap \<Rightarrow> val \<Rightarrow> error + string list" where
  "getOwnPropertyNames h Undefined = Inl TypeError"
| "getOwnPropertyNames h Null = Inl TypeError"
| "getOwnPropertyNames h v = Inr (remdups (map fst (own_props h v)))"

text \<open>
  The keys a \<open>for (const key in v)\<close> loop visits: the enumerable string keys of the
  object and of its prototype chain, nearest first; a key is visited once, and a nearer
  property of the same name hides a farther one even when it is not enumerable. The loop
  body of \<open>delegateStatic\<close> deletes nothing, so the keys are those present when the
  loop starts. Nothing is visited for \<open>undefined\<close> and \<open>null\<close>.
\<close>

fun visit :: "string list \<Rightarrow> (string \<times> property) list \<Rightarrow> string list" where
  "visit seen [] = []"
| "visit seen ((k, p) # es) =
     (if k \<in> set seen then visit seen es
      else (if enumerable p then [k] else []) @ visit (k # seen) es)"

definition for_in_keys :: "heap \<Rightarrow> val \<Rightarrow> string list" where
  "for_in_keys h v = visit [] (entries h v)"

text \<open>
  \<open>target.bind(thisArg)\<close>: a TypeError unless \<open>target\<close> is a function; otherwise a new
  function object with the target's prototype, whose call forwards to the target with
  \<open>this\<close> fixed, and with the own properties \<open>length\<close> and \<open>name\<close> the built-in
  gives a bound function.
\<close>

definition bound_length :: "heap \<Rightarrow> val \<Rightarrow> val" where
  "bound_length h target =
     (case map_of (own_props h target) ''length'' of
        Some p \<Rightarrow> (case pval p of Num n \<Rightarrow> Num (max 0 n) | _ \<Rightarrow> Num 0)
      | None \<Rightarrow> Num 0)"

definition bound_name :: "heap \<Rightarrow> val \<Rightarrow> val" where
  "bound_name h target =
     (case get_member h target ''name'' of
        Inr (Str s) \<Rightarrow> Str (''bound '' @ s)
      | _ \<Rightarrow> Str ''bound '')"

definition bound_function :: "heap \<Rightarrow> val \<Rightarrow> val \<Rightarrow> obj" where
  "bound_function h target thisArg =
     \<lparr>proto = proto_of h target,
      props = [(''length'', \<lparr>pval = bound_length h target, enumerable = False\<rparr>),
               (''name'', \<lparr>pval = bound_name h target, enumerable = False\<rparr>)],
      code = Some (Bound target thisArg [])\<rparr>"

definition alloc :: "heap \<Rightarrow> obj \<Rightarrow> val \<times> heap" where
  "alloc h ob = (Ref (length h), h @ [ob])"

definition bind :: "heap \<Rightarrow> val \<Rightarrow> val \<Rightarrow> (error + val) \<times> heap" where
  "bind h target thisArg =
     (if is_function h target
      then (case alloc h (bound_function h target thisArg) of (b, h') \<Rightarrow> (Inr b, h'))
      else (Inl TypeError, h))"

section \<open>delegate\<close>

text \<open>
  \<^verbatim>\<open>
  export function delegate(self: any, delegateCandidates: any[]) {
      for(const candidate of delegateCandidates) {
          for (const key of Object.getOwnPropertyNames(Object.getPrototypeOf(candidate))) {
              if(!candidate[key].isDelegated) continue;
              self[key] = candidate[key].bind(candidate);
          }
      }
  }
  \<close>
  The inner loop runs over the array of names computed once, before its first
  iteration. An exception leaves the store as it is at that moment.
\<close>

fun delegate_keys :: "heap \<Rightarrow> val \<Rightarrow> val \<Rightarrow> string list \<Rightarrow> (error + unit) \<times> heap" where
  "delegate_keys h self candidate [] = (Inr (), h)"
| "delegate_keys h self candidate (key # keys) =
     (case get_member h candidate key of
        Inl e \<Rightarrow> (Inl e, h)
      | Inr m \<Rightarrow>
          (case get_member h m ''isDelegated'' of
             Inl e \<Rightarrow> (Inl e, h)
           | Inr mark \<Rightarrow>
               if \<not> truthy mark then delegate_keys h self candidate keys
               else
                 (case get_member h candidate key of
                    Inl e \<Rightarrow> (Inl e, h)
                  | Inr m' \<Rightarrow>
                      (case bind h m' candidate of
                         (Inl e, h1) \<Rightarrow> (Inl e, h1)
                       | (Inr b, h1) \<Rightarrow>
                           (case set_member h1 self key b of
                              (Inl e, h2) \<Rightarrow> (Inl e, h2)
                            | (Inr u, h2) \<Rightarrow> delegate_keys h2 self candidate keys)))))"

fun delegate :: "heap \<Rightarrow> val \<Rightarrow> val list \<Rightarrow> (error + unit) \<times> heap" where
  "delegate h self [] = (Inr (), h)"
| "delegate h self (candidate # rest) =
     (case getPrototypeOf h candidate of
        Inl e \<Rightarrow> (Inl e, h)
      | Inr p \<Rightarrow>
          (case getOwnPropertyNames h p of
             Inl e \<Rightarrow> (Inl e, h)
           | Inr keys \<Rightarrow>
               (case delegate_keys h self candidate keys of
                  (Inl e, h1) \<Rightarrow> (Inl e, h1)
                | (Inr u, h1) \<Rightarrow> delegate h1 self rest)))"

section \<open>delegateStatic\<close>

text \<open>
  \<^verbatim>\<open>
  export function delegateStatic(self: any, delegateCandidates: any[]) {
      for(const candidate of delegateCandidates) {
          for (const key in candidate) {
              const val = candidate[key];
              if (typeof val != "function" || !val.isDelegated) continue;

              self[key] = (...args: any[]) =>
                val.apply(candidate, val.omitFirst ? [self, ...args] : args);
          }
      }
  }
  \<close>
  The arrow function is a new function object with prototype \<open>Function.prototype\<close>,
  length 0 (it has a rest parameter only) and an empty name.
\<close>

definition static_arrow :: "val \<Rightarrow> val \<Rightarrow> val \<Rightarrow> obj" where
  "static_arrow val candidate self =
     \<lparr>proto = Ref FunctionPrototype,
      props = [(''length'', \<lparr>pval = Num 0, enumerable = False\<rparr>),
               (''name'', \<lparr>pval = Str [], enumerable = False\<rparr>)],
      code = Some (StaticArrow val candidate self)\<rparr>"

fun delegateStatic_keys :: "heap \<Rightarrow> val \<Rightarrow> val \<Rightarrow> string list \<Rightarrow> (error + unit) \<times> heap" where
  "delegateStatic_keys h self candidate [] = (Inr (), h)"
| "delegateStatic_keys h self candidate (key # keys) =
     (case get_member h candidate key of
        Inl e \<Rightarrow> (Inl e, h)
      | Inr val \<Rightarrow>
          if \<not> is_function h val then delegateStatic_keys h self candidate keys
          else
            (case get_member h val ''isDelegated'' of
               Inl e \<Rightarrow> (Inl e, h)
             | Inr mark \<Rightarrow>
                 if \<not> truthy mark then delegateStatic_keys h self candidate keys
                 else
                   (case alloc h (static_arrow val candidate self) of
                      (w, h1) \<Rightarrow>
                        (case set_member h1 self key w of
                           (Inl e, h2) \<Rightarrow> (Inl e, h2)
                         | (Inr u, h2) \<Rightarrow> delegateStatic_keys h2 self candidate keys))))"

fun delegateStatic :: "heap \<Rightarrow> val \<Rightarrow> val list \<Rightarrow> (error + unit) \<times> heap" where
  "delegateStatic h self [] = (Inr (), h)"
| "delegateStatic h self (candidate # rest) =
     (case delegateStatic_keys h self candidate (for_in_keys h candidate) of
        (Inl e, h1) \<Rightarrow> (Inl e, h1)
      | (Inr u, h1) \<Rightarrow> delegateStatic h1 self rest)"

section \<open>DelegateMethod\<close>

text \<open>
  \<^verbatim>\<open>
  export function DelegateMethod(omitFirst: boolean = false): MethodDecorator {
      return (_: Object, __: string | symbol, descriptor: PropertyDescriptor) => {
          (descriptor.value as any).isDelegated = true;
          (descriptor.value as any).omitFirst = omitFirst;
      };
  }
  \<close>
  The decorator is the partial application \<open>DelegateMethod omitFirst\<close>; an omitted
  argument is \<open>None\<close> and takes the default \<open>false\<close>.
\<close>

definition DelegateMethod ::
    "bool option \<Rightarrow> heap \<Rightarrow> val \<Rightarrow> string \<Rightarrow> val \<Rightarrow> (error + unit) \<times> heap" where
  "DelegateMethod omitFirst h target propertyKey descriptor =
     (let flag = (case omitFirst of None \<Rightarrow> False | Some b \<Rightarrow> b) in
      case get_member h descriptor ''value'' of
        Inl e \<Rightarrow> (Inl e, h)
      | Inr f \<Rightarrow>
          (case set_member h f ''isDelegated'' (Bool True) of
             (Inl e, h1) \<Rightarrow> (Inl e, h1)
           | (Inr u, h1) \<Rightarrow>
               (case get_member h1 descriptor ''value'' of
                  Inl e \<Rightarrow> (Inl e, h1)
                | Inr f' \<Rightarrow> set_member h1 f' ''omitFirst'' (Bool flag))))"

section \<open>Calling a function object\<close>

text \<open>
  The bodies of the host program's functions are a parameter: a table from body index to
  what the body does with \<open>this\<close>, the arguments and the store. A body may fail to
  return, so may a call: \<open>None\<close> is a call that never returns.

  A bound function ignores the caller's \<open>this\<close>. The arrow function of
  \<open>delegateStatic\<close> ignores it too, reads \<open>val.omitFirst\<close> when it is called, and
  applies \<open>val\<close> to \<open>candidate\<close>.
\<close>

type_synonym outcome = "(error + val) \<times> heap"

type_synonym bodies = "nat \<Rightarrow> val \<Rightarrow> val list \<Rightarrow> heap \<Rightarrow> outcome option"

partial_function (option) call_function ::
    "bodies \<Rightarrow> heap \<Rightarrow> val \<Rightarrow> val \<Rightarrow> val list \<Rightarrow> outcome option" where
  "call_function N h f this args =
     (case f of
        Ref a \<Rightarrow>
          (if a < length h then
             (case code (h ! a) of
                None \<Rightarrow> Some (Inl TypeError, h)
              | Some (Native i) \<Rightarrow> N i this args h
              | Some (Bound target boundThis boundArgs) \<Rightarrow>
                  call_function N h target boundThis (boundArgs @ args)
              | Some (StaticArrow val candidate self) \<Rightarrow>
                  (case get_member h val ''omitFirst'' of
                     Inl e \<Rightarrow> Some (Inl e, h)
                   | Inr omit \<Rightarrow>
                       call_function N h val candidate
                         (if truthy omit then self # args else args)))
           else Some (Inl TypeError, h))
      | _ \<Rightarrow> Some (Inl TypeError, h))"

declare call_function.simps [code]

section \<open>Vocabulary of the properties\<close>

text \<open>\<open>v[k]\<close> where it cannot raise, \<open>undefined\<close> standing in where it would.\<close>

definition member :: "heap \<Rightarrow> val \<Rightarrow> string \<Rightarrow> val" where
  "member h v k = (case get_member h v k of Inl e \<Rightarrow> Undefined | Inr x \<Rightarrow> x)"

text \<open>A value carries the delegation mark when its \<open>isDelegated\<close> is truthy.\<close>

definition is_marked :: "heap \<Rightarrow> val \<Rightarrow> bool" where
  "is_marked h v = truthy (member h v ''isDelegated'')"

definition omits_first :: "heap \<Rightarrow> val \<Rightarrow> bool" where
  "omits_first h v = truthy (member h v ''omitFirst'')"

text \<open>The names \<open>delegate\<close> iterates over for a donor.\<close>

definition prototype_names :: "heap \<Rightarrow> val \<Rightarrow> string list" where
  "prototype_names h d =
     (case getPrototypeOf h d of
        Inl e \<Rightarrow> []
      | Inr p \<Rightarrow> (case getOwnPropertyNames h p of Inl e \<Rightarrow> [] | Inr ks \<Rightarrow> ks))"

text \<open>The own property of an object under a name, if it has one.\<close>

definition own_property :: "heap \<Rightarrow> addr \<Rightarrow> string \<Rightarrow> property option" where
  "own_property h a k = map_of (own_props h (Ref a)) k"

definition own_value :: "heap \<Rightarrow> addr \<Rightarrow> string \<Rightarrow> val option" where
  "own_value h a k = map_option pval (own_property h a k)"

text \<open>
  The recipient is apart from a value when no lookup that starts at the value reaches
  the recipient: the value is not the recipient, and its prototype chain is well formed
  and does not pass through the recipient.
\<close>

definition apart :: "heap \<Rightarrow> addr \<Rightarrow> val \<Rightarrow> bool" where
  "apart h r v =
     ((case v of Ref a \<Rightarrow> a < length h \<and> a \<noteq> r | _ \<Rightarrow> True) \<and>
      (case proto_chain h (proto_of h v) of None \<Rightarrow> False | Some as \<Rightarrow> r \<notin> set as))"

text \<open>
  What the binders install. \<open>delegate\<close> leaves under a name a function bound to the
  donor; \<open>delegateStatic\<close> leaves its arrow function, closed over the donor's member,
  the donor and the recipient.
\<close>

definition installed_bound :: "heap \<Rightarrow> addr \<Rightarrow> string \<Rightarrow> val \<Rightarrow> val \<Rightarrow> bool" where
  "installed_bound h r m f d =
     (case own_value h r m of
        Some (Ref b) \<Rightarrow> b < length h \<and> code (h ! b) = Some (Bound f d [])
      | _ \<Rightarrow> False)"

definition installed_arrow :: "heap \<Rightarrow> addr \<Rightarrow> string \<Rightarrow> val \<Rightarrow> val \<Rightarrow> bool" where
  "installed_arrow h r m f d =
     (case own_value h r m of
        Some (Ref w) \<Rightarrow> w < length h \<and> code (h ! w) = Some (StaticArrow f d (Ref r))
      | _ \<Rightarrow> False)"

text \<open>
  A member \<open>m\<close> that \<open>delegate\<close> takes from donor \<open>d\<close> for recipient \<open>r\<close>: a name of
  the donor's prototype whose value on the donor carries the mark, the recipient being
  apart from the donor and from that value. For \<open>delegateStatic\<close>: a name
  \<open>for ... in\<close> visits on the donor whose value is a function that carries the mark.
\<close>

definition delegable :: "heap \<Rightarrow> addr \<Rightarrow> val \<Rightarrow> string \<Rightarrow> bool" where
  "delegable h r d m =
     (m \<in> set (prototype_names h d) \<and> is_marked h (member h d m) \<and>
      apart h r d \<and> apart h r (member h d m))"

definition delegable_static :: "heap \<Rightarrow> addr \<Rightarrow> val \<Rightarrow> string \<Rightarrow> bool" where
  "delegable_static h r d m =
     (m \<in> set (for_in_keys h d) \<and> is_function h (member h d m) \<and>
      is_marked h (member h d m) \<and> apart h r d \<and> apart h r (member h d m))"

text \<open>
  A donor that does not take part in a name: the binder does not find \<open>m\<close> on it, or
  finds it without the mark. The recipient is apart from the donor, and from the value
  of \<open>m\<close> where the binder reads it.
\<close>

definition no_override :: "heap \<Rightarrow> addr \<Rightarrow> val \<Rightarrow> string \<Rightarrow> bool" where
  "no_override h r d m =
     (apart h r d \<and>
      (m \<notin> set (prototype_names h d) \<or>
       apart h r (member h d m) \<and> \<not> is_marked h (member h d m)))"

definition no_override_static :: "heap \<Rightarrow> addr \<Rightarrow> val \<Rightarrow> string \<Rightarrow> bool" where
  "no_override_static h r d m =
     (apart h r d \<and>
      (m \<notin> set (for_in_keys h d) \<or>
       apart h r (member h d m) \<and>
       \<not> (is_function h (member h d m) \<and> is_marked h (member h d m))))"

text \<open>
  A donor is isolated from the recipient when the recipient is apart from the donor and
  from the value of every member the binder reads on it: the names of the donor's
  prototype for \<open>delegate\<close>, the names \<open>for ... in\<close> visits for \<open>delegateStatic\<close>.
\<close>

definition isolated :: "heap \<Rightarrow> addr \<Rightarrow> val \<Rightarrow> bool" where
  "isolated h r d =
     (apart h r d \<and> list_all (\<lambda>k. apart h r (member h d k)) (prototype_names h d))"

definition isolated_static :: "heap \<Rightarrow> addr \<Rightarrow> val \<Rightarrow> bool" where
  "isolated_static h r d =
     (apart h r d \<and> list_all (\<lambda>k. apart h r (member h d k)) (for_in_keys h d))"

text \<open>
  What a run of a binder with recipient \<open>r\<close> may change: objects are only added, no
  prototype link and no call behaviour changes, and only \<open>r\<close> has its properties
  changed.
\<close>

definition frame :: "addr \<Rightarrow> heap \<Rightarrow> heap \<Rightarrow> bool" where
  "frame r h h' \<longleftrightarrow>
     length h \<le> length h' \<and>
     (\<forall>a < length h. proto (h' ! a) = proto (h ! a) \<and> code (h' ! a) = code (h ! a) \<and>
        (a \<noteq> r \<longrightarrow> props (h' ! a) = props (h ! a)))"

section \<open>Example programs\<close>

text \<open>
  The stores of the examples in the documentation of delegate.ts, used to run the
  binders on concrete input. Addresses 0 to 3 hold the intrinsic prototypes, address 4
  \<open>Object.prototype\<close>.
\<close>

definition intrinsics :: heap where
  "intrinsics =
     [\<lparr>proto = Ref 4, props = [], code = Some (Native 0)\<rparr>,
      \<lparr>proto = Ref 4, props = [], code = None\<rparr>,
      \<lparr>proto = Ref 4, props = [], code = None\<rparr>,
      \<lparr>proto = Ref 4, props = [], code = None\<rparr>,
      \<lparr>proto = Null, props = [], code = None\<rparr>]"

definition delegated :: "bool \<Rightarrow> (string \<times> property) list" where
  "delegated omitFirst =
     [(''isDelegated'', \<lparr>pval = Bool True, enumerable = True\<rparr>),
      (''omitFirst'', \<lparr>pval = Bool omitFirst, enumerable = True\<rparr>)]"

text \<open>
  \<^verbatim>\<open>
  class ClassOne {
    value: number;
    constructor() { this.value = 0; }
    @DelegateMethod() doSomething() { this.value++; }
    peek() { return this.value; }
  }
  class ClassTwo implements Delegate<[ClassOne]> {
    value: number = 0;
    constructor() { delegate(this, [new ClassOne()]); }
  }
  \<close>
  5 is \<open>ClassOne.prototype\<close>, 6 \<open>ClassOne\<close>, 7 \<open>doSomething\<close> (body 1), 8 the
  unmarked \<open>peek\<close> (body 2), 9 the donor \<open>new ClassOne()\<close>, 10 the recipient. A
  second, unrelated donor: 11 is the prototype of a class \<open>Logger\<close> with the marked
  method \<open>log\<close> (12, body 3), 13 an instance of it.
\<close>

definition instance_heap :: heap where
  "instance_heap = intrinsics @
     [\<lparr>proto = Ref 4,
       props = [(''constructor'', \<lparr>pval = Ref 6, enumerable = False\<rparr>),
                (''doSomething'', \<lparr>pval = Ref 7, enumerable = False\<rparr>),
                (''peek'', \<lparr>pval = Ref 8, enumerable = False\<rparr>)],
       code = None\<rparr>,
      \<lparr>proto = Ref 0, props = [(''prototype'', \<lparr>pval = Ref 5, enumerable = False\<rparr>)],
       code = Some (Native 0)\<rparr>,
      \<lparr>proto = Ref 0, props = delegated False, code = Some (Native 1)\<rparr>,
      \<lparr>proto = Ref 0, props = [], code = Some (Native 2)\<rparr>,
      \<lparr>proto = Ref 5, props = [(''value'', \<lparr>pval = Num 0, enumerable = True\<rparr>)], code = None\<rparr>,
      \<lparr>proto = Ref 4, props = [(''value'', \<lparr>pval = Num 0, enumerable = True\<rparr>)], code = None\<rparr>,
      \<lparr>proto = Ref 4, props = [(''log'', \<lparr>pval = Ref 12, enumerable = False\<rparr>)], code = None\<rparr>,
      \<lparr>proto = Ref 0, props = delegated False, code = Some (Native 3)\<rparr>,
      \<lparr>proto = Ref 11, props = [], code = None\<rparr>]"

text \<open>
  Body 1 is \<open>this.value++\<close> on a number, body 2 is \<open>return this.value\<close>, body 3 is
  \<open>return "logged"\<close>.
\<close>

definition instance_bodies :: bodies where
  "instance_bodies i this args h =
     (if i = 1 then
        (case get_member h this ''value'' of
           Inr (Num n) \<Rightarrow>
             (case set_member h this ''value'' (Num (n + 1)) of
                (Inl e, h') \<Rightarrow> Some (Inl e, h')
              | (Inr u, h') \<Rightarrow> Some (Inr Undefined, h'))
         | _ \<Rightarrow> Some (Inl TypeError, h))
      else if i = 2 then
        (case get_member h this ''value'' of
           Inl e \<Rightarrow> Some (Inl e, h)
         | Inr v \<Rightarrow> Some (Inr v, h))
      else if i = 3 then Some (Inr (Str ''logged''), h)
      else Some (Inr Undefined, h))"

text \<open>
  \<^verbatim>\<open>
  class StaticClass {
    @DelegateMethod() static add(a: number, b: number): number { return a + b; }
    @DelegateMethod(true) static change(myClass: MyClass, to: number): void { myClass.value = to; }
    static helper() {}
  }
  class MyClass implements DelegateStatic<[StaticClass], MyClass> {
    value: number = 0;
    constructor() { delegateStatic(this, [StaticClass]); }
  }
  \<close>
  compiled for ES5, where static methods are enumerable properties of the constructor
  (a static method of an ES2015 class is not enumerable, see \<open>hidden\<close> below).
  5 is \<open>StaticClass\<close>, 6 its prototype, 7 \<open>add\<close> (body 1), 8 \<open>change\<close> (body 2),
  9 the unmarked \<open>helper\<close>, 10 the recipient. A second donor class: 11, with the
  marked static method \<open>ping\<close> (12, body 4, \<open>return "pong"\<close>).
\<close>

definition static_heap :: heap where
  "static_heap = intrinsics @
     [\<lparr>proto = Ref 0,
       props = [(''prototype'', \<lparr>pval = Ref 6, enumerable = False\<rparr>),
                (''add'', \<lparr>pval = Ref 7, enumerable = True\<rparr>),
                (''change'', \<lparr>pval = Ref 8, enumerable = True\<rparr>),
                (''helper'', \<lparr>pval = Ref 9, enumerable = True\<rparr>)],
       code = Some (Native 0)\<rparr>,
      \<lparr>proto = Ref 4, props = [(''constructor'', \<lparr>pval = Ref 5, enumerable = False\<rparr>)],
       code = None\<rparr>,
      \<lparr>proto = Ref 0, props = delegated False, code = Some (Native 1)\<rparr>,
      \<lparr>proto = Ref 0, props = delegated True, code = Some (Native 2)\<rparr>,
      \<lparr>proto = Ref 0, props = [], code = Some (Native 3)\<rparr>,
      \<lparr>proto = Ref 4, props = [(''value'', \<lparr>pval = Num 0, enumerable = True\<rparr>)], code = None\<rparr>,
      \<lparr>proto = Ref 0, props = [(''ping'', \<lparr>pval = Ref 12, enumerable = True\<rparr>)],
       code = Some (Native 0)\<rparr>,
      \<lparr>proto = Ref 0, props = delegated False, code = Some (Native 4)\<rparr>]"

definition static_bodies :: bodies where
  "static_bodies i this args h =
     (if i = 1 then
        (case args of
           Num a # Num b # rest \<Rightarrow> Some (Inr (Num (a + b)), h)
         | _ \<Rightarrow> Some (Inl TypeError, h))
      else if i = 2 then
        (case args of
           myClass # to # rest \<Rightarrow>
             (case set_member h myClass ''value'' to of
                (Inl e, h') \<Rightarrow> Some (Inl e, h')
              | (Inr u, h') \<Rightarrow> Some (Inr Undefined, h'))
         | _ \<Rightarrow> Some (Inl TypeError, h))
      else if i = 4 then Some (Inr (Str ''pong''), h)
      else Some (Inr Undefined, h))"



text \<open>
  Inheritance. Class 5 has the marked static methods \<open>greet\<close> (enumerable) and
  \<open>hidden\<close> (not enumerable), both the function 6; class 7 extends class 5 and has no
  static member of its own; 8 is the recipient. Prototype 9 has the marked method
  \<open>hello\<close>; prototype 10 extends it with the marked method \<open>own\<close> (function 11);
  12 is an instance of the class with prototype 10.
\<close>

definition inherit_heap :: heap where
  "inherit_heap = intrinsics @
     [\<lparr>proto = Ref 0, props = [(''greet'', \<lparr>pval = Ref 6, enumerable = True\<rparr>),
                (''hidden'', \<lparr>pval = Ref 6, enumerable = False\<rparr>)],
       code = Some (Native 0)\<rparr>,
      \<lparr>proto = Ref 0, props = delegated False, code = Some (Native 1)\<rparr>,
      \<lparr>proto = Ref 5, props = [], code = Some (Native 0)\<rparr>,
      \<lparr>proto = Ref 4, props = [], code = None\<rparr>,
      \<lparr>proto = Ref 4, props = [(''hello'', \<lparr>pval = Ref 6, enumerable = False\<rparr>)], code = None\<rparr>,
      \<lparr>proto = Ref 9, props = [(''own'', \<lparr>pval = Ref 11, enumerable = False\<rparr>)], code = None\<rparr>,
      \<lparr>proto = Ref 0, props = delegated False, code = Some (Native 2)\<rparr>,
      \<lparr>proto = Ref 10, props = [], code = None\<rparr>]"

text \<open>
  \<^verbatim>\<open>class Labelled {}  Labelled.prototype.label = null\<close>:
  5 is the prototype, 6 the constructor, 7 an instance, 8 the recipient.
\<close>

definition null_member_heap :: heap where
  "null_member_heap = intrinsics @
     [\<lparr>proto = Ref 4,
       props = [(''constructor'', \<lparr>pval = Ref 6, enumerable = False\<rparr>),
                (''label'', \<lparr>pval = Null, enumerable = True\<rparr>)],
       code = None\<rparr>,
      \<lparr>proto = Ref 0, props = [(''prototype'', \<lparr>pval = Ref 5, enumerable = False\<rparr>)],
       code = Some (Native 0)\<rparr>,
      \<lparr>proto = Ref 5, props = [], code = None\<rparr>,
      \<lparr>proto = Ref 4, props = [], code = None\<rparr>]"

text \<open>
  The store of \<open>ClassOne\<close> with, at 14, the property descriptor of \<open>peek\<close> that a
  decorator of \<open>peek\<close> receives.
\<close>

definition decorator_heap :: heap where
  "decorator_heap = instance_heap @
     [\<lparr>proto = Ref 4,
       props = [(''value'', \<lparr>pval = Ref 8, enumerable = True\<rparr>),
                (''writable'', \<lparr>pval = Bool True, enumerable = True\<rparr>),
                (''enumerable'', \<lparr>pval = Bool False, enumerable = True\<rparr>),
                (''configurable'', \<lparr>pval = Bool True, enumerable = True\<rparr>)],
       code = None\<rparr>]"




text \<open>
  \<^verbatim>\<open>
  class Store {
    static settings = marked;
    config = marked;
  }
  \<close>
  where \<open>marked\<close> is an object with \<open>isDelegated = true\<close> and \<open>omitFirst = false\<close>,
  the only mark delegate.ts knows: 5 is \<open>Store.prototype\<close>, 6 the class \<open>Store\<close> with
  the static field \<open>settings\<close>, 7 the marked object, 8 an instance of \<open>Store\<close> with the
  field \<open>config\<close>, 9 the recipient.
\<close>

definition field_heap :: heap where
  "field_heap = intrinsics @
     [\<lparr>proto = Ref 4, props = [(''constructor'', \<lparr>pval = Ref 6, enumerable = False\<rparr>)],
       code = None\<rparr>,
      \<lparr>proto = Ref 0,
       props = [(''prototype'', \<lparr>pval = Ref 5, enumerable = False\<rparr>),
                (''settings'', \<lparr>pval = Ref 7, enumerable = True\<rparr>)],
       code = Some (Native 0)\<rparr>,
      \<lparr>proto = Ref 4, props = delegated False, code = None\<rparr>,
      \<lparr>proto = Ref 5, props = [(''config'', \<lparr>pval = Ref 7, enumerable = True\<rparr>)], code = None\<rparr>,
      \<lparr>proto = Ref 4, props = [], code = None\<rparr>]"


section \<open>What a binder leaves unchanged\<close>

lemma frame_refl: "frame r h h"
  by (simp add: frame_def)

lemma frame_trans: "frame r h h1 \<Longrightarrow> frame r h1 h2 \<Longrightarrow> frame r h h2"
  unfolding frame_def by (metis (no_types, lifting) le_trans less_le_trans)

lemma frame_append: "frame r h (h @ [ob])"
  by (simp add: frame_def nth_append)

lemma set_member_Inr:
  "set_member h s k v = (Inr u, h') \<Longrightarrow>
     \<exists>r. s = Ref r \<and> r < length h \<and> h' = h[r := (h ! r)\<lparr>props := set_own (props (h ! r)) k v\<rparr>]"
  by (cases s) (auto split: if_splits)

lemma set_member_Inl: "set_member h s k v = (Inl e, h') \<Longrightarrow> h' = h"
  by (cases s) (auto split: if_splits)

lemma frame_set_member: "set_member h (Ref r) k v = (res, h') \<Longrightarrow> frame r h h'"
  by (auto simp: frame_def nth_list_update split: if_splits)

lemma bind_Inr:
  "bind h t th = (Inr b, h') \<Longrightarrow>
     is_function h t \<and> b = Ref (length h) \<and> h' = h @ [bound_function h t th]"
  by (auto simp: bind_def alloc_def split: if_splits)

lemma bind_Inl: "bind h t th = (Inl e, h') \<Longrightarrow> h' = h"
  by (auto simp: bind_def alloc_def split: if_splits)

lemma frame_bind: "bind h t th = (res, h') \<Longrightarrow> frame r h h'"
  by (cases res) (auto dest: bind_Inr bind_Inl simp: frame_refl frame_append)

lemma chain_from_bound: "chain_from n h v = Some as \<Longrightarrow> \<forall>a \<in> set as. a < length h"
proof (induction n arbitrary: v as)
  case 0
  then show ?case by (cases v) (auto split: if_splits)
next
  case (Suc n)
  then show ?case by (cases v) (auto split: if_splits)
qed

lemma chain_from_mono: "chain_from n h v = Some as \<Longrightarrow> chain_from (n + j) h v = Some as"
proof (induction n arbitrary: v as)
  case 0
  then show ?case by (cases v) (auto split: if_splits)
next
  case (Suc n)
  then show ?case by (cases v) (auto split: if_splits)
qed

lemma chain_from_frame:
  "frame r h h' \<Longrightarrow> chain_from n h v = Some as \<Longrightarrow> chain_from n h' v = Some as"
proof (induction n arbitrary: v as)
  case 0
  then show ?case by (cases v) (auto split: if_splits simp: frame_def)
next
  case (Suc n)
  then show ?case by (cases v) (auto split: if_splits simp: frame_def)
qed

lemma proto_chain_frame:
  assumes "frame r h h'" "proto_chain h v = Some as"
  shows "proto_chain h' v = Some as"
proof -
  from assms(1) obtain j where j: "length h' = length h + j"
    by (auto simp: frame_def le_iff_add)
  from assms(2) have "chain_from (length h + j) h v = Some as"
    unfolding proto_chain_def by (rule chain_from_mono)
  with assms(1) show ?thesis
    unfolding proto_chain_def j by (rule chain_from_frame)
qed

lemma proto_chain_bound: "proto_chain h v = Some as \<Longrightarrow> \<forall>a \<in> set as. a < length h"
  unfolding proto_chain_def by (rule chain_from_bound)

lemma apart_valid: "apart h r (Ref a) \<Longrightarrow> a < length h \<and> a \<noteq> r"
  by (simp add: apart_def)

lemma proto_of_frame:
  "frame r h h' \<Longrightarrow> (\<And>a. v = Ref a \<Longrightarrow> a < length h) \<Longrightarrow> proto_of h' v = proto_of h v"
  by (cases v) (auto simp: frame_def)

lemma own_props_frame:
  "frame r h h' \<Longrightarrow> (\<And>a. v = Ref a \<Longrightarrow> a < length h \<and> a \<noteq> r) \<Longrightarrow> own_props h' v = own_props h v"
  by (cases v) (auto simp: frame_def)

lemma apart_frame:
  assumes "frame r h h'" "apart h r v"
  shows "apart h' r v"
proof -
  have p: "proto_of h' v = proto_of h v"
    using assms by (intro proto_of_frame) (auto simp: apart_def)
  from assms(2) obtain as where as: "proto_chain h (proto_of h v) = Some as" "r \<notin> set as"
    by (auto simp: apart_def split: option.splits)
  from proto_chain_frame[OF assms(1) as(1)] as(2) assms show ?thesis
    by (auto simp: apart_def p frame_def split: val.splits)
qed

lemma inherited_frame:
  assumes "frame r h h'" "apart h r v"
  shows "inherited h' v = inherited h v"
proof -
  have p: "proto_of h' v = proto_of h v"
    using assms by (intro proto_of_frame) (auto simp: apart_def)
  from assms(2) obtain as where as: "proto_chain h (proto_of h v) = Some as" "r \<notin> set as"
    by (auto simp: apart_def split: option.splits)
  from assms(1) as(1) have as': "proto_chain h' (proto_of h v) = Some as"
    by (rule proto_chain_frame)
  have "\<forall>a \<in> set as. props (h' ! a) = props (h ! a)"
    using proto_chain_bound[OF as(1)] as(2) assms(1) by (auto simp: frame_def)
  then have eq: "map (\<lambda>a. props (h' ! a)) as = map (\<lambda>a. props (h ! a)) as"
    by (simp cong: map_cong)
  show ?thesis unfolding inherited_def p as as' option.case eq ..
qed

lemma entries_frame:
  assumes "frame r h h'" "apart h r v"
  shows "entries h' v = entries h v"
proof -
  have "own_props h' v = own_props h v"
    using assms by (intro own_props_frame) (auto simp: apart_def)
  then show ?thesis by (simp add: entries_def inherited_frame[OF assms])
qed

lemma get_member_frame: "frame r h h' \<Longrightarrow> apart h r v \<Longrightarrow> get_member h' v k = get_member h v k"
  by (cases v) (simp_all add: entries_frame)

lemma member_frame: "frame r h h' \<Longrightarrow> apart h r v \<Longrightarrow> member h' v k = member h v k"
  by (simp add: member_def get_member_frame)

lemma is_marked_frame: "frame r h h' \<Longrightarrow> apart h r v \<Longrightarrow> is_marked h' v = is_marked h v"
  by (simp add: is_marked_def member_frame)


lemma for_in_keys_frame: "frame r h h' \<Longrightarrow> apart h r v \<Longrightarrow> for_in_keys h' v = for_in_keys h v"
  by (simp add: for_in_keys_def entries_frame)

lemma is_function_frame: "frame r h h' \<Longrightarrow> is_function h v \<Longrightarrow> is_function h' v"
  by (cases v) (auto simp: frame_def)

lemma is_function_frame_iff:
  "frame r h h' \<Longrightarrow> apart h r v \<Longrightarrow> is_function h' v = is_function h v"
  by (cases v) (auto simp: frame_def apart_def)

lemma prototype_names_frame:
  assumes "frame r h h'" "apart h r d"
  shows "prototype_names h' d = prototype_names h d"
proof -
  have p: "proto_of h' d = proto_of h d"
    using assms by (intro proto_of_frame) (auto simp: apart_def)
  from assms(2) obtain as where as: "proto_chain h (proto_of h d) = Some as" "r \<notin> set as"
    by (auto simp: apart_def split: option.splits)
  have "own_props h' (proto_of h d) = own_props h (proto_of h d)"
  proof (rule own_props_frame[OF assms(1)])
    fix a assume a: "proto_of h d = Ref a"
    with as(1) have "a < length h" by (auto simp: proto_chain_def split: if_splits)
    moreover from a as(1) have "a \<in> set as"
      by (auto simp: proto_chain_def split: if_splits nat.splits)
    ultimately show "a < length h \<and> a \<noteq> r" using as(2) by auto
  qed
  then have n: "getOwnPropertyNames h' (proto_of h d) = getOwnPropertyNames h (proto_of h d)"
    by (cases "proto_of h d") simp_all
  have g: "getPrototypeOf h' d = getPrototypeOf h d"
    using p by (cases d) (simp_all del: proto_of.simps)
  have "getPrototypeOf h d = Inl TypeError \<or> getPrototypeOf h d = Inr (proto_of h d)"
    by (cases d) simp_all
  then show ?thesis
    unfolding prototype_names_def g using n by auto
qed

section \<open>The loops of delegate\<close>

lemma delegate_keys_step [consumes 1, case_names skip install fail]:
  assumes "delegate_keys h s c (k # ks) = (res, h')"
  obtains
    (skip) m mk where
      "get_member h c k = Inr m" "get_member h m ''isDelegated'' = Inr mk" "\<not> truthy mk"
      "delegate_keys h s c ks = (res, h')"
  | (install) m mk b h1 h2 where
      "get_member h c k = Inr m" "get_member h m ''isDelegated'' = Inr mk" "truthy mk"
      "bind h m c = (Inr b, h1)" "set_member h1 s k b = (Inr (), h2)"
      "delegate_keys h2 s c ks = (res, h')"
  | (fail) e where "res = Inl e" "h' = h \<or> (\<exists>m b. bind h m c = (Inr b, h'))"
proof (cases "get_member h c k")
  case (Inl e)
  with assms show ?thesis by (intro fail[of e]) auto
next
  case m: (Inr m)
  show ?thesis
  proof (cases "get_member h m ''isDelegated''")
    case (Inl e)
    with assms m show ?thesis by (intro fail[of e]) auto
  next
    case mk: (Inr mk)
    show ?thesis
    proof (cases "truthy mk")
      case False
      with assms m mk show ?thesis by (intro skip[of m mk]) auto
    next
      case True
      obtain rb h1 where b: "bind h m c = (rb, h1)" by (cases "bind h m c")
      show ?thesis
      proof (cases rb)
        case (Inl e)
        with assms m mk True b bind_Inl[of h m c e h1] show ?thesis
          by (intro fail[of e]) auto
      next
        case (Inr bv)
        obtain rs h2 where s: "set_member h1 s k bv = (rs, h2)"
          by (cases "set_member h1 s k bv")
        show ?thesis
        proof (cases rs)
          case (Inl e)
          with s have "h2 = h1" by (auto dest: set_member_Inl)
          with assms m mk True b Inr s Inl show ?thesis
            by (intro fail[of e]) (auto simp del: set_member.simps)
        next
          case u: (Inr u)
          with assms m mk True b Inr s show ?thesis
            by (intro install[of m mk bv h1 h2]) (auto simp del: set_member.simps)
        qed
      qed
    qed
  qed
qed

lemma frame_delegate_keys:
  "delegate_keys h (Ref r) c ks = (res, h') \<Longrightarrow> frame r h h'"
proof (induction ks arbitrary: h)
  case Nil
  then show ?case by (simp add: frame_refl)
next
  case (Cons k ks)
  from Cons.prems show ?case
  proof (cases rule: delegate_keys_step)
    case (skip m mk)
    then show ?thesis by (intro Cons.IH)
  next
    case (install m mk b h1 h2)
    from install(4) have "frame r h h1" by (rule frame_bind)
    moreover from install(5) have "frame r h1 h2" by (rule frame_set_member)
    moreover from install(6) have "frame r h2 h'" by (rule Cons.IH)
    ultimately show ?thesis by (blast intro: frame_trans)
  next
    case (fail e)
    then show ?thesis by (auto simp: frame_refl dest: frame_bind)
  qed
qed

lemma frame_delegate:
  "delegate h (Ref r) ds = (res, h') \<Longrightarrow> frame r h h'"
proof (induction ds arbitrary: h)
  case Nil
  then show ?case by (simp add: frame_refl)
next
  case (Cons d ds)
  then show ?case
    by (auto split: sum.splits prod.splits simp: frame_refl dest!: frame_delegate_keys intro: frame_trans)
qed

lemma map_of_set_own_other: "k \<noteq> m \<Longrightarrow> map_of (set_own ps k v) m = map_of ps m"
  by (induction ps k v rule: set_own.induct) auto

lemma map_of_set_own_same: "\<exists>p. map_of (set_own ps k v) k = Some p \<and> pval p = v"
  by (induction ps k v rule: set_own.induct) auto

lemma own_property_set_other:
  "set_member h (Ref r) k v = (Inr u, h') \<Longrightarrow> k \<noteq> m \<Longrightarrow> own_property h' r m = own_property h r m"
  by (auto simp: own_property_def map_of_set_own_other split: if_splits)

lemma own_value_set_same:
  "set_member h (Ref r) k v = (Inr u, h') \<Longrightarrow> own_value h' r k = Some v"
  using map_of_set_own_same[of "props (h ! r)" k v]
  by (auto simp: own_value_def own_property_def split: if_splits)

lemma own_property_append: "r < length h \<Longrightarrow> own_property (h @ [ob]) r m = own_property h r m"
  by (simp add: own_property_def nth_append)

lemma delegate_keys_other_key:
  "delegate_keys h (Ref r) c ks = (res, h') \<Longrightarrow> m \<notin> set ks \<Longrightarrow> r < length h \<Longrightarrow>
     own_property h' r m = own_property h r m"
proof (induction ks arbitrary: h)
  case Nil
  then show ?case by simp
next
  case (Cons k ks)
  from Cons.prems(1) show ?case
  proof (cases rule: delegate_keys_step)
    case (skip m' mk)
    with Cons show ?thesis by auto
  next
    case (install m' mk b h1 h2)
    from install(4) have h1: "h1 = h @ [bound_function h m' c]" by (auto dest: bind_Inr)
    from install(5) have "frame r h1 h2" by (rule frame_set_member)
    then have "r < length h2" using Cons.prems(3) h1 by (auto simp: frame_def)
    with install(6) Cons have "own_property h' r m = own_property h2 r m" by auto
    also have "\<dots> = own_property h1 r m"
      using install(5) Cons.prems(2) by (intro own_property_set_other) auto
    also have "\<dots> = own_property h r m"
      unfolding h1 using Cons.prems(3) by (rule own_property_append)
    finally show ?thesis .
  next
    case (fail e)
    then show ?thesis
      using Cons.prems(3) by (auto dest!: bind_Inr simp: own_property_append)
  qed
qed

lemma delegate_keys_installs:
  assumes "delegate_keys h (Ref r) c ks = (Inr (), h')" "distinct ks" "m \<in> set ks"
    "r < length h" "apart h r c" "apart h r (member h c m)" "is_marked h (member h c m)"
    "get_member h c m = Inr (member h c m)"
  shows "\<exists>b. length h \<le> b \<and> b < length h' \<and>
           own_value h' r m = Some (Ref b) \<and>
           code (h' ! b) = Some (Bound (member h c m) c [])"
  using assms
proof (induction ks arbitrary: h)
  case Nil
  then show ?case by simp
next
  case (Cons k ks)
  let ?f = "member h c m"
  from Cons.prems(1) show ?case
  proof (cases rule: delegate_keys_step)
    case (skip m' mk)
    have "k \<noteq> m"
    proof
      assume "k = m"
      with skip Cons.prems(8) have "m' = ?f" by simp
      with skip(2,3) Cons.prems(7) show False by (simp add: is_marked_def member_def)
    qed
    with Cons.prems have "m \<in> set ks" "distinct ks" by auto
    with skip(4) Cons.prems show ?thesis by (intro Cons.IH) auto
  next
    case (install m' mk b h1 h2)
    from install(4) have b: "b = Ref (length h)" and h1: "h1 = h @ [bound_function h m' c]"
      by (auto dest: bind_Inr)
    from install(4) have f1: "frame r h h1" by (rule frame_bind)
    from install(5) have f2: "frame r h1 h2" by (rule frame_set_member)
    from f1 f2 have f: "frame r h h2" by (rule frame_trans)
    from install(6) have f3: "frame r h2 h'" by (rule frame_delegate_keys)
    have r2: "r < length h2" using f Cons.prems(4) by (auto simp: frame_def)
    show ?thesis
    proof (cases "k = m")
      case True
      with install(1) Cons.prems(8) have m': "m' = ?f" by simp
      from True Cons.prems(2) have "m \<notin> set ks" by simp
      with install(6) r2 have "own_property h' r m = own_property h2 r m"
        by (intro delegate_keys_other_key)
      moreover have "own_value h2 r m = Some b"
        using install(5) True by (auto dest: own_value_set_same simp del: set_member.simps)
      moreover have lb: "length h < length h2" using f2 h1 by (auto simp: frame_def)
      have "length h \<noteq> r" using Cons.prems(4) by simp
      have "code (h2 ! length h) = code (h1 ! length h)"
        using f2 h1 by (auto simp: frame_def)
      then have "code (h2 ! length h) = Some (Bound ?f c [])"
        by (simp add: h1 m' bound_function_def)
      moreover have "code (h' ! length h) = code (h2 ! length h)"
        using f3 lb by (auto simp: frame_def)
      moreover have "length h < length h'" using f3 lb by (auto simp: frame_def)
      ultimately show ?thesis using b by (auto simp: own_value_def)
    next
      case False
      with Cons.prems have ks: "m \<in> set ks" "distinct ks" by auto
      have mem: "member h2 c m = ?f" using f Cons.prems(5) by (rule member_frame)
      have "\<exists>b. length h2 \<le> b \<and> b < length h' \<and>
           own_value h' r m = Some (Ref b) \<and>
           code (h' ! b) = Some (Bound (member h2 c m) c [])"
      proof (rule Cons.IH[OF install(6) ks(2) ks(1) r2])
        show "apart h2 r c" using f Cons.prems(5) by (rule apart_frame)
        show "apart h2 r (member h2 c m)" unfolding mem using f Cons.prems(6) by (rule apart_frame)
        show "is_marked h2 (member h2 c m)"
          unfolding mem using is_marked_frame[OF f Cons.prems(6)] Cons.prems(7) by simp
        show "get_member h2 c m = Inr (member h2 c m)"
          unfolding mem using get_member_frame[OF f Cons.prems(5)] Cons.prems(8) by simp
      qed
      moreover have "length h \<le> length h2" using f by (simp add: frame_def)
      ultimately show ?thesis unfolding mem by (meson le_trans)
    qed
  next
    case (fail e)
    then show ?thesis by simp
  qed
qed

lemma delegate_append:
  "delegate h s (xs @ ys) =
     (case delegate h s xs of (Inl e, h1) \<Rightarrow> (Inl e, h1) | (Inr u, h1) \<Rightarrow> delegate h1 s ys)"
  by (induction xs arbitrary: h) (auto split: sum.splits prod.splits)

lemma delegate_single:
  assumes "delegate h s [d] = (Inr (), h')" "prototype_names h d \<noteq> []"
  shows "delegate_keys h s d (prototype_names h d) = (Inr (), h')"
  using assms by (auto simp: prototype_names_def split: sum.splits prod.splits)

lemma member_own:
  "own_value h r m = Some v \<Longrightarrow> member h (Ref r) m = v"
  by (auto simp: own_value_def own_property_def member_def entries_def map_add_def
      split: option.splits if_splits)

lemma get_member_prototype_names:
  "m \<in> set (prototype_names h d) \<Longrightarrow> get_member h d m = Inr (member h d m)"
  by (cases d) (simp_all add: prototype_names_def member_def)

lemma distinct_prototype_names: "distinct (prototype_names h d)"
proof -
  have "\<And>p ks. getOwnPropertyNames h p = Inr ks \<Longrightarrow> distinct ks"
    subgoal for p ks by (cases p) auto
    done
  then show ?thesis by (auto simp: prototype_names_def split: sum.splits)
qed

lemma call_bound:
  assumes "b < length h" "code (h ! b) = Some (Bound f t [])"
  shows "call_function N h (Ref b) this A = call_function N h f t A"
  using assms by (subst call_function.simps) simp

section \<open>The loops of delegateStatic\<close>

lemma delegateStatic_keys_step [consumes 1, case_names skip install fail]:
  assumes "delegateStatic_keys h s c (k # ks) = (res, h')"
  obtains
    (skip) "\<not> (is_function h (member h c k) \<and> is_marked h (member h c k))"
      "delegateStatic_keys h s c ks = (res, h')"
  | (install) h2 where
      "get_member h c k = Inr (member h c k)"
      "is_function h (member h c k)" "is_marked h (member h c k)"
      "set_member (h @ [static_arrow (member h c k) c s]) s k (Ref (length h)) = (Inr (), h2)"
      "delegateStatic_keys h2 s c ks = (res, h')"
  | (fail) e where "res = Inl e" "h' = h \<or> (\<exists>ob. h' = h @ [ob])"
proof (cases "get_member h c k")
  case (Inl e)
  with assms show ?thesis by (intro fail[of e]) auto
next
  case v: (Inr v)
  then have mem: "member h c k = v" by (simp add: member_def)
  show ?thesis
  proof (cases "is_function h v")
    case False
    with assms v mem show ?thesis by (intro skip) auto
  next
    case True
    then obtain a where a: "v = Ref a" by (cases v) auto
    then have g: "get_member h v ''isDelegated'' = Inr (member h v ''isDelegated'')"
      by (simp add: member_def)
    show ?thesis
    proof (cases "is_marked h v")
      case False
      with assms v mem True g show ?thesis
        by (intro skip) (auto simp: is_marked_def)
    next
      case mk: True
      obtain rs h2 where s: "set_member (h @ [static_arrow v c s]) s k (Ref (length h)) = (rs, h2)"
        by (cases "set_member (h @ [static_arrow v c s]) s k (Ref (length h))")
      show ?thesis
      proof (cases rs)
        case (Inl e)
        with s have "h2 = h @ [static_arrow v c s]" by (auto dest: set_member_Inl)
        with assms v True g mk s Inl show ?thesis
          by (intro fail[of e]) (auto simp: is_marked_def alloc_def simp del: set_member.simps)
      next
        case (Inr u)
        with assms v mem True g mk s show ?thesis
          by (intro install[of h2]) (auto simp: is_marked_def alloc_def simp del: set_member.simps)
      qed
    qed
  qed
qed

lemma frame_delegateStatic_keys:
  "delegateStatic_keys h (Ref r) c ks = (res, h') \<Longrightarrow> frame r h h'"
proof (induction ks arbitrary: h)
  case Nil
  then show ?case by (simp add: frame_refl)
next
  case (Cons k ks)
  from Cons.prems show ?case
  proof (cases rule: delegateStatic_keys_step)
    case skip
    then show ?thesis by (intro Cons.IH)
  next
    case (install h2)
    have "frame r h (h @ [static_arrow (member h c k) c (Ref r)])" by (rule frame_append)
    moreover from install(4) have "frame r (h @ [static_arrow (member h c k) c (Ref r)]) h2"
      by (rule frame_set_member)
    moreover from install(5) have "frame r h2 h'" by (rule Cons.IH)
    ultimately show ?thesis by (blast intro: frame_trans)
  next
    case (fail e)
    then show ?thesis by (auto simp: frame_refl frame_append)
  qed
qed

lemma frame_delegateStatic:
  "delegateStatic h (Ref r) ds = (res, h') \<Longrightarrow> frame r h h'"
proof (induction ds arbitrary: h)
  case Nil
  then show ?case by (simp add: frame_refl)
next
  case (Cons d ds)
  then show ?case
    by (auto split: sum.splits prod.splits simp: frame_refl
        dest!: frame_delegateStatic_keys intro: frame_trans)
qed

lemma delegateStatic_keys_other_key:
  "delegateStatic_keys h (Ref r) c ks = (res, h') \<Longrightarrow> m \<notin> set ks \<Longrightarrow> r < length h \<Longrightarrow>
     own_property h' r m = own_property h r m"
proof (induction ks arbitrary: h)
  case Nil
  then show ?case by simp
next
  case (Cons k ks)
  from Cons.prems(1) show ?case
  proof (cases rule: delegateStatic_keys_step)
    case skip
    with Cons show ?thesis by auto
  next
    case (install h2)
    let ?h1 = "h @ [static_arrow (member h c k) c (Ref r)]"
    from install(4) have "frame r ?h1 h2" by (rule frame_set_member)
    then have "r < length h2" using Cons.prems(3) by (auto simp: frame_def)
    with install(5) Cons have "own_property h' r m = own_property h2 r m" by auto
    also have "\<dots> = own_property ?h1 r m"
      using install(4) Cons.prems(2) by (intro own_property_set_other) auto
    also have "\<dots> = own_property h r m"
      using Cons.prems(3) by (rule own_property_append)
    finally show ?thesis .
  next
    case (fail e)
    then show ?thesis
      using Cons.prems(3) by (auto simp: own_property_append)
  qed
qed

lemma delegateStatic_keys_installs:
  assumes "delegateStatic_keys h (Ref r) c ks = (Inr (), h')" "distinct ks" "m \<in> set ks"
    "r < length h" "apart h r c" "apart h r (member h c m)"
    "is_function h (member h c m)" "is_marked h (member h c m)"
  shows "\<exists>w. length h \<le> w \<and> w < length h' \<and>
           own_value h' r m = Some (Ref w) \<and>
           code (h' ! w) = Some (StaticArrow (member h c m) c (Ref r))"
  using assms
proof (induction ks arbitrary: h)
  case Nil
  then show ?case by simp
next
  case (Cons k ks)
  let ?f = "member h c m"
  from Cons.prems(1) show ?case
  proof (cases rule: delegateStatic_keys_step)
    case skip
    with Cons.prems have "k \<noteq> m" by auto
    with Cons.prems have "m \<in> set ks" "distinct ks" by auto
    with skip(2) Cons.prems show ?thesis by (intro Cons.IH) auto
  next
    case (install h2)
    let ?h1 = "h @ [static_arrow (member h c k) c (Ref r)]"
    have f1: "frame r h ?h1" by (rule frame_append)
    from install(4) have f2: "frame r ?h1 h2" by (rule frame_set_member)
    from f1 f2 have f: "frame r h h2" by (rule frame_trans)
    from install(5) have f3: "frame r h2 h'" by (rule frame_delegateStatic_keys)
    have r2: "r < length h2" using f Cons.prems(4) by (auto simp: frame_def)
    show ?thesis
    proof (cases "k = m")
      case True
      from True Cons.prems(2) have "m \<notin> set ks" by simp
      with install(5) r2 have "own_property h' r m = own_property h2 r m"
        by (intro delegateStatic_keys_other_key)
      moreover have "own_value h2 r m = Some (Ref (length h))"
        using install(4) True by (auto dest: own_value_set_same simp del: set_member.simps)
      moreover have lb: "length h < length h2" using f2 by (auto simp: frame_def)
      have "code (h2 ! length h) = code (?h1 ! length h)"
        using f2 by (auto simp: frame_def)
      then have "code (h2 ! length h) = Some (StaticArrow ?f c (Ref r))"
        by (simp add: True static_arrow_def)
      moreover have "code (h' ! length h) = code (h2 ! length h)"
        using f3 lb by (auto simp: frame_def)
      moreover have "length h < length h'" using f3 lb by (auto simp: frame_def)
      ultimately show ?thesis by (auto simp: own_value_def)
    next
      case False
      with Cons.prems have ks: "m \<in> set ks" "distinct ks" by auto
      have mem: "member h2 c m = ?f" using f Cons.prems(5) by (rule member_frame)
      have "\<exists>w. length h2 \<le> w \<and> w < length h' \<and>
           own_value h' r m = Some (Ref w) \<and>
           code (h' ! w) = Some (StaticArrow (member h2 c m) c (Ref r))"
      proof (rule Cons.IH[OF install(5) ks(2) ks(1) r2])
        show "apart h2 r c" using f Cons.prems(5) by (rule apart_frame)
        show "apart h2 r (member h2 c m)" unfolding mem using f Cons.prems(6) by (rule apart_frame)
        show "is_function h2 (member h2 c m)"
          unfolding mem using f Cons.prems(7) by (rule is_function_frame)
        show "is_marked h2 (member h2 c m)"
          unfolding mem using is_marked_frame[OF f Cons.prems(6)] Cons.prems(8) by simp
      qed
      moreover have "length h \<le> length h2" using f by (simp add: frame_def)
      ultimately show ?thesis unfolding mem by (meson le_trans)
    qed
  next
    case (fail e)
    then show ?thesis by simp
  qed
qed

lemma visit_fresh: "set (visit seen es) \<inter> set seen = {}"
  by (induction seen es rule: visit.induct) auto

lemma distinct_visit: "distinct (visit seen es)"
proof (induction seen es rule: visit.induct)
  case (1 seen)
  then show ?case by simp
next
  case (2 seen k p es)
  then show ?case using visit_fresh[of "k # seen" es] by auto
qed

lemma distinct_for_in_keys: "distinct (for_in_keys h v)"
  unfolding for_in_keys_def by (rule distinct_visit)

lemma set_visit:
  "set (visit seen es) = {k. k \<notin> set seen \<and> (\<exists>p. map_of es k = Some p \<and> enumerable p)}"
proof (induction seen es rule: visit.induct)
  case (1 seen)
  then show ?case by simp
next
  case (2 seen k p es)
  then show ?case by (auto split: if_splits)
qed

lemma set_for_in_keys:
  "set (for_in_keys h v) = {k. \<exists>p. map_of (entries h v) k = Some p \<and> enumerable p}"
  by (simp add: for_in_keys_def set_visit)

lemma delegateStatic_append:
  "delegateStatic h s (xs @ ys) =
     (case delegateStatic h s xs of
        (Inl e, h1) \<Rightarrow> (Inl e, h1)
      | (Inr u, h1) \<Rightarrow> delegateStatic h1 s ys)"
  by (induction xs arbitrary: h) (auto split: sum.splits prod.splits)

lemma delegateStatic_single:
  "delegateStatic h s [d] = (res, h') \<Longrightarrow> delegateStatic_keys h s d (for_in_keys h d) = (res, h')"
  by (auto split: sum.splits prod.splits)

section \<open>What the binders install\<close>

lemma call_static_arrow:
  assumes "w < length h" "code (h ! w) = Some (StaticArrow (Ref f) c s)"
  shows "call_function N h (Ref w) this A =
         call_function N h (Ref f) c (if omits_first h (Ref f) then s # A else A)"
  using assms by (subst call_function.simps) (simp add: omits_first_def member_def)

lemma installed_boundI:
  "own_value h r m = Some (Ref b) \<Longrightarrow> b < length h \<Longrightarrow> code (h ! b) = Some (Bound f d []) \<Longrightarrow>
     installed_bound h r m f d"
  by (simp add: installed_bound_def)

lemma installed_boundE:
  assumes "installed_bound h r m f d"
  obtains b where "own_value h r m = Some (Ref b)" "b < length h"
    "code (h ! b) = Some (Bound f d [])"
  using assms by (auto simp: installed_bound_def split: option.splits val.splits)

lemma installed_arrowI:
  "own_value h r m = Some (Ref w) \<Longrightarrow> w < length h \<Longrightarrow>
     code (h ! w) = Some (StaticArrow f d (Ref r)) \<Longrightarrow> installed_arrow h r m f d"
  by (simp add: installed_arrow_def)

lemma installed_arrowE:
  assumes "installed_arrow h r m f d"
  obtains w where "own_value h r m = Some (Ref w)" "w < length h"
    "code (h ! w) = Some (StaticArrow f d (Ref r))"
  using assms by (auto simp: installed_arrow_def split: option.splits val.splits)

lemma call_installed_bound:
  assumes "installed_bound h r m f d"
  shows "call_function N h (member h (Ref r) m) this A = call_function N h f d A"
proof -
  from assms obtain b where b: "own_value h r m = Some (Ref b)" "b < length h"
    "code (h ! b) = Some (Bound f d [])" by (rule installed_boundE)
  from b(1) have "member h (Ref r) m = Ref b" by (rule member_own)
  with call_bound[OF b(2,3)] show ?thesis by simp
qed

lemma call_installed_arrow:
  assumes "installed_arrow h r m (Ref f) d"
  shows "call_function N h (member h (Ref r) m) this A =
         call_function N h (Ref f) d (if omits_first h (Ref f) then Ref r # A else A)"
proof -
  from assms obtain w where w: "own_value h r m = Some (Ref w)" "w < length h"
    "code (h ! w) = Some (StaticArrow (Ref f) d (Ref r))" by (rule installed_arrowE)
  from w(1) have "member h (Ref r) m = Ref w" by (rule member_own)
  with call_static_arrow[OF w(2,3)] show ?thesis by simp
qed

lemma delegate_last_installs:
  assumes "delegate h (Ref r) (ds @ [d]) = (Inr (), h')"
    and "r < length h"
    and "apart h r d"
    and "m \<in> set (prototype_names h d)"
    and "is_marked h (member h d m)"
    and "apart h r (member h d m)"
  shows "installed_bound h' r m (member h d m) d"
proof -
  from assms(1) obtain h1 where
    run1: "delegate h (Ref r) ds = (Inr (), h1)" and run2: "delegate h1 (Ref r) [d] = (Inr (), h')"
    by (auto simp: delegate_append split: sum.splits prod.splits)
  from run1 have f1: "frame r h h1" by (rule frame_delegate)
  have names: "prototype_names h1 d = prototype_names h d"
    using f1 assms(3) by (rule prototype_names_frame)
  have mem1: "member h1 d m = member h d m" using f1 assms(3) by (rule member_frame)
  have keys: "delegate_keys h1 (Ref r) d (prototype_names h1 d) = (Inr (), h')"
    using run2 assms(4) names by (intro delegate_single) auto
  have "\<exists>b. length h1 \<le> b \<and> b < length h' \<and> own_value h' r m = Some (Ref b) \<and>
           code (h' ! b) = Some (Bound (member h1 d m) d [])"
  proof (rule delegate_keys_installs[OF keys distinct_prototype_names])
    show "m \<in> set (prototype_names h1 d)" using assms(4) names by simp
    show "r < length h1" using f1 assms(2) by (auto simp: frame_def)
    show "apart h1 r d" using f1 assms(3) by (rule apart_frame)
    show "apart h1 r (member h1 d m)" unfolding mem1 using f1 assms(6) by (rule apart_frame)
    show "is_marked h1 (member h1 d m)"
      unfolding mem1 using is_marked_frame[OF f1 assms(6)] assms(5) by simp
    show "get_member h1 d m = Inr (member h1 d m)"
      using assms(4) names by (intro get_member_prototype_names) simp
  qed
  then show ?thesis unfolding mem1 by (auto intro: installed_boundI)
qed

lemma delegateStatic_last_installs:
  assumes "delegateStatic h (Ref r) (ds @ [d]) = (Inr (), h')"
    and "r < length h"
    and "apart h r d"
    and "m \<in> set (for_in_keys h d)"
    and "is_function h (member h d m)"
    and "is_marked h (member h d m)"
    and "apart h r (member h d m)"
  shows "installed_arrow h' r m (member h d m) d"
proof -
  from assms(1) obtain h1 where
    run1: "delegateStatic h (Ref r) ds = (Inr (), h1)"
    and run2: "delegateStatic h1 (Ref r) [d] = (Inr (), h')"
    by (auto simp: delegateStatic_append split: sum.splits prod.splits)
  from run1 have f1: "frame r h h1" by (rule frame_delegateStatic)
  have names: "for_in_keys h1 d = for_in_keys h d"
    using f1 assms(3) by (rule for_in_keys_frame)
  have mem1: "member h1 d m = member h d m" using f1 assms(3) by (rule member_frame)
  from run2 have keys: "delegateStatic_keys h1 (Ref r) d (for_in_keys h1 d) = (Inr (), h')"
    by (rule delegateStatic_single)
  have "\<exists>w. length h1 \<le> w \<and> w < length h' \<and> own_value h' r m = Some (Ref w) \<and>
           code (h' ! w) = Some (StaticArrow (member h1 d m) d (Ref r))"
  proof (rule delegateStatic_keys_installs[OF keys distinct_for_in_keys])
    show "m \<in> set (for_in_keys h1 d)" using assms(4) names by simp
    show "r < length h1" using f1 assms(2) by (auto simp: frame_def)
    show "apart h1 r d" using f1 assms(3) by (rule apart_frame)
    show "apart h1 r (member h1 d m)" unfolding mem1 using f1 assms(7) by (rule apart_frame)
    show "is_function h1 (member h1 d m)"
      unfolding mem1 using f1 assms(5) by (rule is_function_frame)
    show "is_marked h1 (member h1 d m)"
      unfolding mem1 using is_marked_frame[OF f1 assms(7)] assms(6) by simp
  qed
  then show ?thesis unfolding mem1 by (auto intro: installed_arrowI)
qed

lemma delegate_installs:
  assumes "delegate h (Ref r) (ds @ [d]) = (Inr (), h')" "r < length h" "delegable h r d m"
  shows "installed_bound h' r m (member h d m) d"
  using assms unfolding delegable_def by (intro delegate_last_installs) auto

lemma delegateStatic_installs:
  assumes "delegateStatic h (Ref r) (ds @ [d]) = (Inr (), h')" "r < length h"
    "delegable_static h r d m"
  shows "installed_arrow h' r m (member h d m) d"
  using assms unfolding delegable_static_def by (intro delegateStatic_last_installs) auto



section \<open>What the binders change on the recipient\<close>

lemma delegate_keys_changes:
  assumes "delegate_keys h (Ref r) c ks = (res, h')" "r < length h" "apart h r c"
    "apart h r (member h c k)" "own_property h' r k \<noteq> own_property h r k"
  shows "k \<in> set ks \<and> is_marked h (member h c k)"
  using assms
proof (induction ks arbitrary: h)
  case Nil
  then show ?case by simp
next
  case (Cons k' ks)
  from Cons.prems(1) show ?case
  proof (cases rule: delegate_keys_step)
    case (skip m mk)
    with Cons.IH[OF skip(4) Cons.prems(2,3,4,5)] show ?thesis by simp
  next
    case (install m mk b h1 h2)
    from install(4) have h1: "h1 = h @ [bound_function h m c]" by (auto dest: bind_Inr)
    from install(4) have f1: "frame r h h1" by (rule frame_bind)
    from install(5) have f2: "frame r h1 h2" by (rule frame_set_member)
    from f1 f2 have f: "frame r h h2" by (rule frame_trans)
    have r2: "r < length h2" using f Cons.prems(2) by (auto simp: frame_def)
    have mem: "member h2 c k = member h c k" using f Cons.prems(3) by (rule member_frame)
    show ?thesis
    proof (cases "own_property h' r k = own_property h2 r k")
      case True
      have "k' = k"
      proof (rule ccontr)
        assume "k' \<noteq> k"
        with install(5) have "own_property h2 r k = own_property h1 r k"
          by (intro own_property_set_other) auto
        also have "\<dots> = own_property h r k"
          unfolding h1 using Cons.prems(2) by (rule own_property_append)
        finally show False using True Cons.prems(5) by simp
      qed
      moreover from install(1,2,3) have "is_marked h (member h c k')"
        by (simp add: is_marked_def member_def)
      ultimately show ?thesis by simp
    next
      case False
      have "k \<in> set ks \<and> is_marked h2 (member h2 c k)"
      proof (rule Cons.IH[OF install(6) r2 _ _ False])
        show "apart h2 r c" using f Cons.prems(3) by (rule apart_frame)
        show "apart h2 r (member h2 c k)"
          unfolding mem using f Cons.prems(4) by (rule apart_frame)
      qed
      moreover have "is_marked h2 (member h c k) = is_marked h (member h c k)"
        using f Cons.prems(4) by (rule is_marked_frame)
      ultimately show ?thesis by (simp add: mem)
    qed
  next
    case (fail e)
    with Cons.prems(2,5) show ?thesis
      by (auto dest!: bind_Inr simp: own_property_append)
  qed
qed

lemma delegate_cases:
  assumes "delegate h s (d # ds) = (res, h')"
  obtains (stop) e h1 where "res = Inl e" "h' = h1"
      "h1 = h \<or> delegate_keys h s d (prototype_names h d) = (Inl e, h1)"
    | (continue) h1 where "delegate_keys h s d (prototype_names h d) = (Inr (), h1)"
      "delegate h1 s ds = (res, h')"
proof (cases "getPrototypeOf h d")
  case (Inl e)
  with assms show ?thesis by (intro stop[of e h]) auto
next
  case p: (Inr p)
  show ?thesis
  proof (cases "getOwnPropertyNames h p")
    case (Inl e)
    with assms p show ?thesis by (intro stop[of e h]) auto
  next
    case (Inr ks)
    with p have names: "prototype_names h d = ks" by (simp add: prototype_names_def)
    obtain r1 h1 where k: "delegate_keys h s d ks = (r1, h1)" by (cases "delegate_keys h s d ks")
    show ?thesis
    proof (cases r1)
      case (Inl e)
      with assms p Inr k names show ?thesis by (intro stop[of e h1]) auto
    next
      case u: (Inr u)
      with assms p Inr k names show ?thesis by (intro continue[of h1]) auto
    qed
  qed
qed

lemma delegate_donor_changes:
  assumes "delegate_keys h (Ref r) d (prototype_names h d) = (res, h1)" "r < length h"
    "apart h r d" "k \<notin> set (prototype_names h d) \<or> apart h r (member h d k)"
    "own_property h1 r k \<noteq> own_property h r k"
  shows "k \<in> set (prototype_names h d) \<and> is_marked h (member h d k)"
proof (cases "k \<in> set (prototype_names h d)")
  case True
  with assms(4) have "apart h r (member h d k)" by simp
  from delegate_keys_changes[OF assms(1,2,3) this assms(5)] show ?thesis .
next
  case False
  with assms(1,2) have "own_property h1 r k = own_property h r k"
    by (intro delegate_keys_other_key)
  with assms(5) show ?thesis by simp
qed

lemma delegate_changes:
  assumes "delegate h (Ref r) ds = (res, h')" "r < length h"
    "\<forall>d \<in> set ds. apart h r d \<and>
       (k \<notin> set (prototype_names h d) \<or> apart h r (member h d k))"
    "own_property h' r k \<noteq> own_property h r k"
  shows "\<exists>d \<in> set ds. k \<in> set (prototype_names h d) \<and> is_marked h (member h d k)"
  using assms
proof (induction ds arbitrary: h)
  case Nil
  then show ?case by simp
next
  case (Cons d ds)
  from Cons.prems(3) have ap: "apart h r d"
    and apk: "k \<notin> set (prototype_names h d) \<or> apart h r (member h d k)" by simp_all
  from Cons.prems(1) show ?case
  proof (cases rule: delegate_cases)
    case (stop e h1)
    from stop(3) show ?thesis
    proof
      assume "h1 = h"
      with stop Cons.prems(4) show ?thesis by simp
    next
      assume "delegate_keys h (Ref r) d (prototype_names h d) = (Inl e, h1)"
      from delegate_donor_changes[OF this Cons.prems(2) ap apk] stop(2) Cons.prems(4)
      show ?thesis by auto
    qed
  next
    case (continue h1)
    from continue(1) have f1: "frame r h h1" by (rule frame_delegate_keys)
    have r1: "r < length h1" using f1 Cons.prems(2) by (auto simp: frame_def)
    show ?thesis
    proof (cases "own_property h1 r k = own_property h r k")
      case False
      from delegate_donor_changes[OF continue(1) Cons.prems(2) ap apk False]
      show ?thesis by auto
    next
      case True
      with Cons.prems(4) have ch: "own_property h' r k \<noteq> own_property h1 r k" by simp
      have tr: "\<And>d'. d' \<in> set ds \<Longrightarrow>
          prototype_names h1 d' = prototype_names h d' \<and> member h1 d' k = member h d' k \<and>
          apart h1 r d'"
        using Cons.prems(3) f1
        by (auto intro: prototype_names_frame member_frame apart_frame)
      have "\<forall>d \<in> set ds. apart h1 r d \<and>
          (k \<notin> set (prototype_names h1 d) \<or> apart h1 r (member h1 d k))"
        using Cons.prems(3) f1 tr by (auto intro: apart_frame)
      from Cons.IH[OF continue(2) r1 this ch] obtain d' where d': "d' \<in> set ds"
        "k \<in> set (prototype_names h1 d')" "is_marked h1 (member h1 d' k)" by blast
      from d'(1,2) tr Cons.prems(3) have "apart h r (member h d' k)" by auto
      with f1 have "is_marked h1 (member h d' k) = is_marked h (member h d' k)"
        by (rule is_marked_frame)
      with d' tr show ?thesis by auto
    qed
  qed
qed

lemma delegateStatic_keys_changes:
  assumes "delegateStatic_keys h (Ref r) c ks = (res, h')" "r < length h" "apart h r c"
    "apart h r (member h c k)" "own_property h' r k \<noteq> own_property h r k"
  shows "k \<in> set ks \<and> is_function h (member h c k) \<and> is_marked h (member h c k)"
  using assms
proof (induction ks arbitrary: h)
  case Nil
  then show ?case by simp
next
  case (Cons k' ks)
  from Cons.prems(1) show ?case
  proof (cases rule: delegateStatic_keys_step)
    case skip
    with Cons.IH[OF skip(2) Cons.prems(2,3,4,5)] show ?thesis by simp
  next
    case (install h2)
    let ?h1 = "h @ [static_arrow (member h c k') c (Ref r)]"
    have f1: "frame r h ?h1" by (rule frame_append)
    from install(4) have f2: "frame r ?h1 h2" by (rule frame_set_member)
    from f1 f2 have f: "frame r h h2" by (rule frame_trans)
    have r2: "r < length h2" using f Cons.prems(2) by (auto simp: frame_def)
    have mem: "member h2 c k = member h c k" using f Cons.prems(3) by (rule member_frame)
    show ?thesis
    proof (cases "own_property h' r k = own_property h2 r k")
      case True
      have "k' = k"
      proof (rule ccontr)
        assume "k' \<noteq> k"
        with install(4) have "own_property h2 r k = own_property ?h1 r k"
          by (intro own_property_set_other) auto
        also have "\<dots> = own_property h r k"
          using Cons.prems(2) by (rule own_property_append)
        finally show False using True Cons.prems(5) by simp
      qed
      with install(2,3) show ?thesis by simp
    next
      case False
      have "k \<in> set ks \<and> is_function h2 (member h2 c k) \<and> is_marked h2 (member h2 c k)"
      proof (rule Cons.IH[OF install(5) r2 _ _ False])
        show "apart h2 r c" using f Cons.prems(3) by (rule apart_frame)
        show "apart h2 r (member h2 c k)"
          unfolding mem using f Cons.prems(4) by (rule apart_frame)
      qed
      moreover have "is_marked h2 (member h c k) = is_marked h (member h c k)"
        using f Cons.prems(4) by (rule is_marked_frame)
      moreover have "is_function h2 (member h c k) = is_function h (member h c k)"
        using f Cons.prems(4) by (rule is_function_frame_iff)
      ultimately show ?thesis by (simp add: mem)
    qed
  next
    case (fail e)
    with Cons.prems(2,5) show ?thesis
      by (auto simp: own_property_append)
  qed
qed

lemma delegateStatic_cases:
  assumes "delegateStatic h s (d # ds) = (res, h')"
  obtains (stop) e where "res = Inl e"
      "delegateStatic_keys h s d (for_in_keys h d) = (Inl e, h')"
    | (continue) h1 where "delegateStatic_keys h s d (for_in_keys h d) = (Inr (), h1)"
      "delegateStatic h1 s ds = (res, h')"
proof -
  obtain r1 h1 where k: "delegateStatic_keys h s d (for_in_keys h d) = (r1, h1)"
    by (cases "delegateStatic_keys h s d (for_in_keys h d)")
  show ?thesis
  proof (cases r1)
    case (Inl e)
    with assms k show ?thesis by (intro stop[of e]) auto
  next
    case (Inr u)
    with assms k show ?thesis by (intro continue[of h1]) auto
  qed
qed

lemma delegateStatic_donor_changes:
  assumes "delegateStatic_keys h (Ref r) d (for_in_keys h d) = (res, h1)" "r < length h"
    "apart h r d" "k \<notin> set (for_in_keys h d) \<or> apart h r (member h d k)"
    "own_property h1 r k \<noteq> own_property h r k"
  shows "k \<in> set (for_in_keys h d) \<and> is_function h (member h d k) \<and>
         is_marked h (member h d k)"
proof (cases "k \<in> set (for_in_keys h d)")
  case True
  with assms(4) have "apart h r (member h d k)" by simp
  from delegateStatic_keys_changes[OF assms(1,2,3) this assms(5)] show ?thesis .
next
  case False
  with assms(1,2) have "own_property h1 r k = own_property h r k"
    by (intro delegateStatic_keys_other_key)
  with assms(5) show ?thesis by simp
qed

lemma delegateStatic_changes:
  assumes "delegateStatic h (Ref r) ds = (res, h')" "r < length h"
    "\<forall>d \<in> set ds. apart h r d \<and>
       (k \<notin> set (for_in_keys h d) \<or> apart h r (member h d k))"
    "own_property h' r k \<noteq> own_property h r k"
  shows "\<exists>d \<in> set ds. k \<in> set (for_in_keys h d) \<and> is_function h (member h d k) \<and>
           is_marked h (member h d k)"
  using assms
proof (induction ds arbitrary: h)
  case Nil
  then show ?case by simp
next
  case (Cons d ds)
  from Cons.prems(3) have ap: "apart h r d"
    and apk: "k \<notin> set (for_in_keys h d) \<or> apart h r (member h d k)" by simp_all
  from Cons.prems(1) show ?case
  proof (cases rule: delegateStatic_cases)
    case (stop e)
    from delegateStatic_donor_changes[OF stop(2) Cons.prems(2) ap apk Cons.prems(4)]
    show ?thesis by auto
  next
    case (continue h1)
    from continue(1) have f1: "frame r h h1" by (rule frame_delegateStatic_keys)
    have r1: "r < length h1" using f1 Cons.prems(2) by (auto simp: frame_def)
    show ?thesis
    proof (cases "own_property h1 r k = own_property h r k")
      case False
      from delegateStatic_donor_changes[OF continue(1) Cons.prems(2) ap apk False]
      show ?thesis by auto
    next
      case True
      with Cons.prems(4) have ch: "own_property h' r k \<noteq> own_property h1 r k" by simp
      have tr: "\<And>d'. d' \<in> set ds \<Longrightarrow>
          for_in_keys h1 d' = for_in_keys h d' \<and> member h1 d' k = member h d' k \<and>
          apart h1 r d'"
        using Cons.prems(3) f1
        by (auto intro: for_in_keys_frame member_frame apart_frame)
      have "\<forall>d \<in> set ds. apart h1 r d \<and>
          (k \<notin> set (for_in_keys h1 d) \<or> apart h1 r (member h1 d k))"
        using Cons.prems(3) f1 tr by (auto intro: apart_frame)
      from Cons.IH[OF continue(2) r1 this ch] obtain d' where d': "d' \<in> set ds"
        "k \<in> set (for_in_keys h1 d')" "is_function h1 (member h1 d' k)"
        "is_marked h1 (member h1 d' k)" by blast
      from d'(1,2) tr Cons.prems(3) have ap': "apart h r (member h d' k)" by auto
      with f1 have "is_marked h1 (member h d' k) = is_marked h (member h d' k)"
        by (rule is_marked_frame)
      moreover from f1 ap' have "is_function h1 (member h d' k) = is_function h (member h d' k)"
        by (rule is_function_frame_iff)
      ultimately show ?thesis using d' tr by auto
    qed
  qed
qed

lemma delegate_keeps:
  assumes "delegate h (Ref r) ds = (res, h')" "r < length h"
    "\<forall>d \<in> set ds. no_override h r d m"
  shows "own_property h' r m = own_property h r m"
proof (rule ccontr)
  assume ch: "own_property h' r m \<noteq> own_property h r m"
  have "\<forall>d \<in> set ds. apart h r d \<and>
       (m \<notin> set (prototype_names h d) \<or> apart h r (member h d m))"
    using assms(3) by (auto simp: no_override_def)
  from delegate_changes[OF assms(1,2) this ch] assms(3) show False
    by (auto simp: no_override_def)
qed

lemma delegateStatic_keeps:
  assumes "delegateStatic h (Ref r) ds = (res, h')" "r < length h"
    "\<forall>d \<in> set ds. no_override_static h r d m"
  shows "own_property h' r m = own_property h r m"
proof (rule ccontr)
  assume ch: "own_property h' r m \<noteq> own_property h r m"
  have "\<forall>d \<in> set ds. apart h r d \<and>
       (m \<notin> set (for_in_keys h d) \<or> apart h r (member h d m))"
    using assms(3) by (auto simp: no_override_static_def)
  from delegateStatic_changes[OF assms(1,2) this ch] assms(3) show False
    by (auto simp: no_override_static_def)
qed

lemma no_override_frame: "frame r h h' \<Longrightarrow> no_override h r d m \<Longrightarrow> no_override h' r d m"
  unfolding no_override_def
  by (auto simp: prototype_names_frame member_frame is_marked_frame intro: apart_frame)

lemma no_override_static_frame:
  "frame r h h' \<Longrightarrow> no_override_static h r d m \<Longrightarrow> no_override_static h' r d m"
  unfolding no_override_static_def
  by (auto simp: for_in_keys_frame member_frame is_marked_frame is_function_frame_iff
      intro: apart_frame)

lemma installed_bound_frame:
  assumes "frame r h h'" "own_property h' r m = own_property h r m"
    "installed_bound h r m f d"
  shows "installed_bound h' r m f d"
proof -
  from assms(3) obtain b where b: "own_value h r m = Some (Ref b)" "b < length h"
    "code (h ! b) = Some (Bound f d [])" by (rule installed_boundE)
  from assms(1) b(2) have "b < length h'" "code (h' ! b) = code (h ! b)"
    by (auto simp: frame_def)
  with b assms(2) show ?thesis by (intro installed_boundI[of _ _ _ b]) (auto simp: own_value_def)
qed

lemma installed_arrow_frame:
  assumes "frame r h h'" "own_property h' r m = own_property h r m"
    "installed_arrow h r m f d"
  shows "installed_arrow h' r m f d"
proof -
  from assms(3) obtain w where w: "own_value h r m = Some (Ref w)" "w < length h"
    "code (h ! w) = Some (StaticArrow f d (Ref r))" by (rule installed_arrowE)
  from assms(1) w(2) have "w < length h'" "code (h' ! w) = code (h ! w)"
    by (auto simp: frame_def)
  with w assms(2) show ?thesis by (intro installed_arrowI[of _ _ _ w]) (auto simp: own_value_def)
qed

lemma delegate_installs_at:
  assumes "delegate h (Ref r) (ds @ d # ds') = (Inr (), h')" "r < length h"
    "delegable h r d m" "\<forall>d' \<in> set ds'. no_override h r d' m"
  shows "installed_bound h' r m (member h d m) d"
proof -
  from assms(1) have "delegate h (Ref r) ((ds @ [d]) @ ds') = (Inr (), h')" by simp
  then obtain h2 where run1: "delegate h (Ref r) (ds @ [d]) = (Inr (), h2)"
    and run2: "delegate h2 (Ref r) ds' = (Inr (), h')"
    unfolding delegate_append[of h "Ref r" "ds @ [d]" ds']
    by (auto split: sum.splits prod.splits)
  from run1 have f1: "frame r h h2" by (rule frame_delegate)
  from run2 have f2: "frame r h2 h'" by (rule frame_delegate)
  have r2: "r < length h2" using f1 assms(2) by (auto simp: frame_def)
  have i2: "installed_bound h2 r m (member h d m) d"
    using run1 assms(2,3) by (rule delegate_installs)
  have "\<forall>d' \<in> set ds'. no_override h2 r d' m"
    using assms(4) f1 by (auto intro: no_override_frame)
  with run2 r2 have "own_property h' r m = own_property h2 r m" by (rule delegate_keeps)
  with f2 show ?thesis using i2 by (rule installed_bound_frame)
qed

lemma delegateStatic_installs_at:
  assumes "delegateStatic h (Ref r) (ds @ d # ds') = (Inr (), h')" "r < length h"
    "delegable_static h r d m" "\<forall>d' \<in> set ds'. no_override_static h r d' m"
  shows "installed_arrow h' r m (member h d m) d"
proof -
  from assms(1) have "delegateStatic h (Ref r) ((ds @ [d]) @ ds') = (Inr (), h')" by simp
  then obtain h2 where run1: "delegateStatic h (Ref r) (ds @ [d]) = (Inr (), h2)"
    and run2: "delegateStatic h2 (Ref r) ds' = (Inr (), h')"
    unfolding delegateStatic_append[of h "Ref r" "ds @ [d]" ds']
    by (auto split: sum.splits prod.splits)
  from run1 have f1: "frame r h h2" by (rule frame_delegateStatic)
  from run2 have f2: "frame r h2 h'" by (rule frame_delegateStatic)
  have r2: "r < length h2" using f1 assms(2) by (auto simp: frame_def)
  have i2: "installed_arrow h2 r m (member h d m) d"
    using run1 assms(2,3) by (rule delegateStatic_installs)
  have "\<forall>d' \<in> set ds'. no_override_static h2 r d' m"
    using assms(4) f1 by (auto intro: no_override_static_frame)
  with run2 r2 have "own_property h' r m = own_property h2 r m" by (rule delegateStatic_keeps)
  with f2 show ?thesis using i2 by (rule installed_arrow_frame)
qed


section \<open>Donors without marked members\<close>

lemma delegate_no_donors: "delegate h s [] = (Inr (), h) \<and> delegateStatic h s [] = (Inr (), h)"
  by simp

lemma for_in_keys_nullish: "for_in_keys h Undefined = [] \<and> for_in_keys h Null = []"
  by (simp add: for_in_keys_def entries_def inherited_def proto_chain_def)

lemma delegateStatic_keys_without_marks:
  "\<forall>k \<in> set ks. \<not> (is_function h (member h c k) \<and> is_marked h (member h c k)) \<Longrightarrow>
   c \<noteq> Undefined \<Longrightarrow> c \<noteq> Null \<Longrightarrow>
   delegateStatic_keys h s c ks = (Inr (), h)"
proof (induction ks)
  case Nil
  then show ?case by simp
next
  case (Cons k ks)
  have g: "get_member h c k = Inr (member h c k)"
    using Cons.prems(2,3) by (cases c) (simp_all add: member_def)
  show ?case
  proof (cases "is_function h (member h c k)")
    case False
    with Cons show ?thesis by (simp add: g)
  next
    case True
    then have g': "get_member h (member h c k) ''isDelegated'' =
        Inr (member h (member h c k) ''isDelegated'')"
      by (cases "member h c k") (simp_all add: member_def)
    from True Cons.prems(1) have "\<not> truthy (member h (member h c k) ''isDelegated'')"
      by (simp add: is_marked_def)
    with Cons True show ?thesis by (simp add: g g')
  qed
qed

lemma delegateStatic_without_marks:
  "\<forall>c \<in> set cs. \<forall>k \<in> set (for_in_keys h c).
      \<not> (is_function h (member h c k) \<and> is_marked h (member h c k)) \<Longrightarrow>
   delegateStatic h s cs = (Inr (), h)"
proof (induction cs)
  case Nil
  then show ?case by simp
next
  case (Cons c cs)
  have "delegateStatic_keys h s c (for_in_keys h c) = (Inr (), h)"
  proof (cases "c = Undefined \<or> c = Null")
    case True
    then show ?thesis using for_in_keys_nullish[of h] by auto
  next
    case False
    with Cons.prems show ?thesis by (intro delegateStatic_keys_without_marks) auto
  qed
  moreover from Cons have "delegateStatic h s cs = (Inr (), h)" by simp
  ultimately show ?case by simp
qed

lemma delegate_keys_without_marks:
  "\<forall>k \<in> set ks. member h c k \<noteq> Undefined \<and> member h c k \<noteq> Null \<and>
      \<not> is_marked h (member h c k) \<Longrightarrow>
   c \<noteq> Undefined \<Longrightarrow> c \<noteq> Null \<Longrightarrow>
   delegate_keys h s c ks = (Inr (), h)"
proof (induction ks)
  case Nil
  then show ?case by simp
next
  case (Cons k ks)
  have g: "get_member h c k = Inr (member h c k)"
    using Cons.prems(2,3) by (cases c) (simp_all add: member_def)
  have g': "get_member h (member h c k) ''isDelegated'' =
      Inr (member h (member h c k) ''isDelegated'')"
    using Cons.prems(1) by (cases "member h c k") (simp_all add: member_def)
  from Cons show ?case by (simp add: g g' is_marked_def)
qed

lemma delegate_without_marks:
  "\<forall>d \<in> set ds. d \<noteq> Undefined \<and> d \<noteq> Null \<and>
      proto_of h d \<noteq> Undefined \<and> proto_of h d \<noteq> Null \<and>
      (\<forall>k \<in> set (prototype_names h d).
         member h d k \<noteq> Undefined \<and> member h d k \<noteq> Null \<and> \<not> is_marked h (member h d k)) \<Longrightarrow>
   delegate h s ds = (Inr (), h)"
proof (induction ds)
  case Nil
  then show ?case by simp
next
  case (Cons d ds)
  then have d: "d \<noteq> Undefined" "d \<noteq> Null" "proto_of h d \<noteq> Undefined" "proto_of h d \<noteq> Null"
    by simp_all
  have p: "getPrototypeOf h d = Inr (proto_of h d)" using d(1,2) by (cases d) simp_all
  obtain ks where n: "getOwnPropertyNames h (proto_of h d) = Inr ks"
    using d(3,4) by (cases "proto_of h d") simp_all
  have names: "prototype_names h d = ks" by (simp add: prototype_names_def p n)
  have "delegate_keys h s d ks = (Inr (), h)"
    using Cons.prems d(1,2) names by (intro delegate_keys_without_marks) auto
  moreover from Cons have "delegate h s ds = (Inr (), h)" by simp
  ultimately show ?case by (simp add: p n)
qed

section \<open>Assignment and lookup\<close>

lemma proto_update:
  "proto ob = proto (h ! a) \<Longrightarrow> b < length h \<Longrightarrow> proto (h[a := ob] ! b) = proto (h ! b)"
  by (cases "a = b") auto

lemma chain_from_update:
  "proto ob = proto (h ! a) \<Longrightarrow> chain_from n (h[a := ob]) v = chain_from n h v"
proof (induction n arbitrary: v)
  case 0
  then show ?case by (cases v) auto
next
  case (Suc n)
  then show ?case by (cases v) (auto simp: proto_update)
qed

lemma proto_of_update: "proto ob = proto (h ! a) \<Longrightarrow> proto_of (h[a := ob]) v = proto_of h v"
  by (cases v) (auto simp: proto_update)

lemma map_of_concat_cong:
  "\<forall>b \<in> set bs. map_of (f b) k = map_of (g b) k \<Longrightarrow>
     map_of (concat (map f bs)) k = map_of (concat (map g bs)) k"
  by (induction bs) (auto simp: map_add_def split: option.splits)

lemma set_member_updates:
  assumes "set_member h (Ref a) k v = (Inr u, h')"
  shows "a < length h" "h' = h[a := (h ! a)\<lparr>props := set_own (props (h ! a)) k v\<rparr>]"
  using assms by (auto split: if_splits)

lemma get_member_set_other:
  assumes "set_member h (Ref a) k v = (Inr u, h')" "k \<noteq> k'"
  shows "get_member h' x k' = get_member h x k'"
proof -
  let ?ob = "(h ! a)\<lparr>props := set_own (props (h ! a)) k v\<rparr>"
  from assms(1) have a: "a < length h" and h': "h' = h[a := ?ob]"
    by (rule set_member_updates)+
  have p: "proto ?ob = proto (h ! a)" by simp
  have obj: "\<And>b. map_of (props (h' ! b)) k' = map_of (props (h ! b)) k'"
    using assms(2) a by (auto simp: h' nth_list_update map_of_set_own_other)
  have own: "map_of (own_props h' x) k' = map_of (own_props h x) k'"
    using obj by (cases x) (auto simp: h')
  have ch: "proto_chain h' (proto_of h' x) = proto_chain h (proto_of h x)"
    unfolding h' proto_chain_def proto_of_update[OF p] by (simp add: chain_from_update[OF p])
  have inh: "map_of (inherited h' x) k' = map_of (inherited h x) k'"
    unfolding inherited_def ch using obj
    by (auto split: option.splits intro!: map_of_concat_cong)
  have "map_of (entries h' x) k' = map_of (entries h x) k'"
    by (simp add: entries_def map_add_def own inh split: option.splits)
  then show ?thesis by (cases x) simp_all
qed

lemma get_member_set_same:
  assumes "set_member h (Ref a) k v = (Inr u, h')"
  shows "get_member h' (Ref a) k = Inr v"
proof -
  from assms have "own_value h' a k = Some v" by (rule own_value_set_same)
  then have "member h' (Ref a) k = v" by (rule member_own)
  then show ?thesis by (simp add: member_def)
qed

section \<open>The claims\<close>

subsection \<open>C1: a delegated method behaves as the donor's method\<close>



subsection \<open>C2: a delegated static method and \<open>omitFirst\<close>\<close>




subsection \<open>C3: a delegated field\<close>

text \<open>
  The claim as stated fails: delegate.ts has no field mark, and neither binder installs
  anything for a field. \<open>delegate\<close> looks at the own names of the donor's prototype and
  a field is a property of the instance; \<open>delegateStatic\<close> skips every member that is
  not a function. In \<open>field_heap\<close> the field \<open>config\<close> of the instance 8 and the static
  field \<open>settings\<close> of the class 6 hold an object that carries the mark. After
  \<open>delegate(recipient, [8])\<close>, and after \<open>delegateStatic(recipient, [6])\<close>, the
  recipient 9 has no such member; \<open>recipient.config = 7\<close> (\<open>recipient.settings = 7\<close>)
  followed by a read yields 7, and the donor's stored value is the object it was, not 7.
\<close>

theorem field_write_misses_donor_counterexample:
  "own_value field_heap 8 ''config'' = Some (Ref 7) \<and>
   is_marked field_heap (member field_heap (Ref 8) ''config'') \<and>
   fst (delegate field_heap (Ref 9) [Ref 8]) = Inr () \<and>
   member (snd (delegate field_heap (Ref 9) [Ref 8])) (Ref 9) ''config'' = Undefined \<and>
   fst (set_member (snd (delegate field_heap (Ref 9) [Ref 8])) (Ref 9) ''config'' (Num 7)) =
     Inr () \<and>
   get_member
     (snd (set_member (snd (delegate field_heap (Ref 9) [Ref 8])) (Ref 9) ''config'' (Num 7)))
     (Ref 9) ''config'' = Inr (Num 7) \<and>
   own_value
     (snd (set_member (snd (delegate field_heap (Ref 9) [Ref 8])) (Ref 9) ''config'' (Num 7)))
     8 ''config'' = Some (Ref 7) \<and>
   own_value field_heap 6 ''settings'' = Some (Ref 7) \<and>
   is_marked field_heap (member field_heap (Ref 6) ''settings'') \<and>
   fst (delegateStatic field_heap (Ref 9) [Ref 6]) = Inr () \<and>
   member (snd (delegateStatic field_heap (Ref 9) [Ref 6])) (Ref 9) ''settings'' = Undefined \<and>
   fst (set_member (snd (delegateStatic field_heap (Ref 9) [Ref 6])) (Ref 9) ''settings''
          (Num 7)) = Inr () \<and>
   get_member
     (snd (set_member (snd (delegateStatic field_heap (Ref 9) [Ref 6])) (Ref 9) ''settings''
             (Num 7)))
     (Ref 9) ''settings'' = Inr (Num 7) \<and>
   own_value
     (snd (set_member (snd (delegateStatic field_heap (Ref 9) [Ref 6])) (Ref 9) ''settings''
             (Num 7)))
     6 ''settings'' = Some (Ref 7)"
  by code_simp

text \<open>
  C3 (amended). delegate.ts delegates methods only: for every recipient \<open>r\<close>, every
  donor list, every field name \<open>k\<close> and every value \<open>V\<close>, after \<open>delegate\<close> or
  \<open>delegateStatic\<close> has run on the recipient, assigning \<open>r.k = V\<close> succeeds and
  reading \<open>r.k\<close> yields \<open>V\<close>, which is stored in an own property of the recipient; the
  write does not pass through to a donor: every object \<open>d\<close> other than the recipient
  has the own properties, with the values, that it had before the binder ran.
\<close>

theorem field_write_stays_on_recipient:
  assumes "delegate h (Ref r) ds = (res, h') \<or> delegateStatic h (Ref r) ds = (res, h')"
    and "r < length h"
    and "d < length h"
    and "d \<noteq> r"
  shows "fst (set_member h' (Ref r) k V) = Inr () \<and>
         get_member (snd (set_member h' (Ref r) k V)) (Ref r) k = Inr V \<and>
         own_value (snd (set_member h' (Ref r) k V)) r k = Some V \<and>
         own_props (snd (set_member h' (Ref r) k V)) (Ref d) = own_props h (Ref d)"
proof -
  from assms(1) have f: "frame r h h'"
    by (auto intro: frame_delegate frame_delegateStatic)
  with assms(2) have r': "r < length h'" by (simp add: frame_def)
  obtain h'' where w: "set_member h' (Ref r) k V = (Inr (), h'')"
    using r' by simp
  then have "frame r h' h''" by (rule frame_set_member)
  with f have "frame r h h''" by (rule frame_trans)
  then have "own_props h'' (Ref d) = own_props h (Ref d)"
    using assms(3,4) by (auto simp: frame_def)
  moreover have "get_member h'' (Ref r) k = Inr V" using w by (rule get_member_set_same)
  moreover have "own_value h'' r k = Some V" using w by (rule own_value_set_same)
  ultimately show ?thesis unfolding w fst_conv snd_conv by blast
qed

text \<open>
  The example of the documentation with a second donor: after
  \<open>delegate(recipient, [donor, logger])\<close>, assigning \<open>recipient.value = 7\<close> and reading
  it back yields 7, and the donor's \<open>value\<close> is still 0.
\<close>

theorem field_write_stays_on_recipient_witness:
  "10 < length instance_heap \<and> 9 < length instance_heap \<and>
   fst (set_member (snd (delegate instance_heap (Ref 10) [Ref 9, Ref 13])) (Ref 10)
          ''value'' (Num 7)) = Inr () \<and>
   get_member
     (snd (set_member (snd (delegate instance_heap (Ref 10) [Ref 9, Ref 13])) (Ref 10)
             ''value'' (Num 7)))
     (Ref 10) ''value'' = Inr (Num 7) \<and>
   own_value
     (snd (set_member (snd (delegate instance_heap (Ref 10) [Ref 9, Ref 13])) (Ref 10)
             ''value'' (Num 7)))
     9 ''value'' = Some (Num 0)"
proof -
  let ?run = "delegate instance_heap (Ref 10) [Ref 9, Ref 13]"
  have run: "?run = (fst ?run, snd ?run) \<or>
      delegateStatic instance_heap (Ref 10) [Ref 9, Ref 13] = (fst ?run, snd ?run)"
    by simp
  have r: "10 < length instance_heap" by code_simp
  have d: "9 < length instance_heap" by code_simp
  have ne: "(9::nat) \<noteq> 10" by simp
  have v: "own_value instance_heap 9 ''value'' = Some (Num 0)" by code_simp
  have o: "\<And>g. own_value g 9 ''value'' = map_option pval (map_of (own_props g (Ref 9)) ''value'')"
    by (simp add: own_value_def own_property_def)
  from field_write_stays_on_recipient [OF run r d ne, of "''value''" "Num 7"] r d v
  show ?thesis by (simp add: o del: own_props.simps)
qed

subsection \<open>C4: the last donor wins\<close>




subsection \<open>C5: only marked members are installed\<close>

text \<open>
  C5. After \<open>delegate\<close> or \<open>delegateStatic\<close> has ended (normally or not), every name
  under which the recipient's own property was added or changed is the name of a marked
  member of one of the donors: a name \<open>delegate\<close> found on the donor's prototype, or a
  name \<open>for ... in\<close> found on the donor class with a function value, whose value carries
  the mark. So no member of a donor that is not marked appears on the recipient. The
  recipient is an object of the store and every donor is isolated from it.
\<close>

theorem only_marked_members_installed:
  "(delegate h (Ref r) ds = (res, h') \<and> r < length h \<and> (\<forall>d \<in> set ds. isolated h r d) \<longrightarrow>
      (\<forall>k. own_property h' r k \<noteq> own_property h r k \<longrightarrow>
         (\<exists>d \<in> set ds. k \<in> set (prototype_names h d) \<and> is_marked h (member h d k)))) \<and>
   (delegateStatic g (Ref s) cs = (res', g') \<and> s < length g \<and>
    (\<forall>c \<in> set cs. isolated_static g s c) \<longrightarrow>
      (\<forall>k. own_property g' s k \<noteq> own_property g s k \<longrightarrow>
         (\<exists>c \<in> set cs. k \<in> set (for_in_keys g c) \<and> is_function g (member g c k) \<and>
            is_marked g (member g c k))))"
proof (intro conjI impI allI; elim conjE)
  fix k
  assume run: "delegate h (Ref r) ds = (res, h')" and r: "r < length h"
    and iso: "\<forall>d \<in> set ds. isolated h r d"
    and ch: "own_property h' r k \<noteq> own_property h r k"
  from iso have "\<forall>d \<in> set ds. apart h r d \<and>
      (k \<notin> set (prototype_names h d) \<or> apart h r (member h d k))"
    by (auto simp: isolated_def list_all_iff)
  from delegate_changes[OF run r this ch]
  show "\<exists>d \<in> set ds. k \<in> set (prototype_names h d) \<and> is_marked h (member h d k)" .
next
  fix k
  assume run: "delegateStatic g (Ref s) cs = (res', g')" and s: "s < length g"
    and iso: "\<forall>c \<in> set cs. isolated_static g s c"
    and ch: "own_property g' s k \<noteq> own_property g s k"
  from iso have "\<forall>c \<in> set cs. apart g s c \<and>
      (k \<notin> set (for_in_keys g c) \<or> apart g s (member g c k))"
    by (auto simp: isolated_static_def list_all_iff)
  from delegateStatic_changes[OF run s this ch]
  show "\<exists>c \<in> set cs. k \<in> set (for_in_keys g c) \<and> is_function g (member g c k) \<and>
      is_marked g (member g c k)" .
qed

text \<open>
  In the examples the unmarked \<open>peek\<close> of \<open>ClassOne\<close> and the unmarked \<open>helper\<close> of
  \<open>StaticClass\<close> do not appear on the recipient.
\<close>

theorem only_marked_members_installed_witness:
  "10 < length instance_heap \<and> isolated instance_heap 10 (Ref 9) \<and>
   isolated instance_heap 10 (Ref 13) \<and>
   \<not> is_marked instance_heap (member instance_heap (Ref 9) ''peek'') \<and>
   ''peek'' \<notin> set (prototype_names instance_heap (Ref 13)) \<and>
   own_property (snd (delegate instance_heap (Ref 10) [Ref 9, Ref 13])) 10 ''peek'' =
     own_property instance_heap 10 ''peek'' \<and>
   10 < length static_heap \<and> isolated_static static_heap 10 (Ref 5) \<and>
   isolated_static static_heap 10 (Ref 11) \<and>
   \<not> is_marked static_heap (member static_heap (Ref 5) ''helper'') \<and>
   ''helper'' \<notin> set (for_in_keys static_heap (Ref 11)) \<and>
   own_property (snd (delegateStatic static_heap (Ref 10) [Ref 5, Ref 11])) 10 ''helper'' =
     own_property static_heap 10 ''helper''"
proof -
  let ?run = "delegate instance_heap (Ref 10) [Ref 9, Ref 13]"
  let ?srun = "delegateStatic static_heap (Ref 10) [Ref 5, Ref 11]"
  have e: "?run = (fst ?run, snd ?run)" "?srun = (fst ?srun, snd ?srun)" by simp_all
  have r: "10 < length instance_heap" by code_simp
  have i: "isolated instance_heap 10 (Ref 9)" "isolated instance_heap 10 (Ref 13)"
    by code_simp+
  have n: "\<not> is_marked instance_heap (member instance_heap (Ref 9) ''peek'')"
    "''peek'' \<notin> set (prototype_names instance_heap (Ref 13))" by code_simp+
  have s: "10 < length static_heap" by code_simp
  have j: "isolated_static static_heap 10 (Ref 5)" "isolated_static static_heap 10 (Ref 11)"
    by code_simp+
  have o: "\<not> is_marked static_heap (member static_heap (Ref 5) ''helper'')"
    "''helper'' \<notin> set (for_in_keys static_heap (Ref 11))" by code_simp+
  from only_marked_members_installed
         [of instance_heap 10 "[Ref 9, Ref 13]" "fst ?run" "snd ?run"
             static_heap 10 "[Ref 5, Ref 11]" "fst ?srun" "snd ?srun"]
       e r i n s j o
  show ?thesis by auto
qed

subsection \<open>C6: donors without marked members\<close>

text \<open>
  C6. Both binders accept the empty donor list, and \<open>delegateStatic\<close> leaves the store
  as it is for donors without marked members (lemmas \<open>delegate_no_donors\<close> and
  \<open>delegateStatic_without_marks\<close>). \<open>delegate\<close> does so only when no member of the
  donor's prototype is \<open>null\<close> or \<open>undefined\<close> (lemma \<open>delegate_without_marks\<close>): it
  reads \<open>candidate[key].isDelegated\<close> with no check of \<open>candidate[key]\<close>, where
  \<open>delegateStatic\<close> tests \<open>typeof val != "function"\<close> first. On the class
  \<^verbatim>\<open>class Labelled {}  Labelled.prototype.label = null\<close>
  (prototype 5, constructor 6, instance 7, recipient 8) no member is marked,
  \<open>delegate(recipient, [new Labelled()])\<close> raises a TypeError, and
  \<open>delegateStatic\<close> with the same arguments returns normally and changes nothing.
\<close>

theorem delegate_raises_on_null_member:
  "filter (\<lambda>k. is_marked null_member_heap (member null_member_heap (Ref 7) k))
     (prototype_names null_member_heap (Ref 7)) = [] \<and>
   delegate null_member_heap (Ref 8) [Ref 7] = (Inl TypeError, null_member_heap) \<and>
   delegateStatic null_member_heap (Ref 8) [Ref 7] = (Inr (), null_member_heap)"
  by code_simp

subsection \<open>C7: which static members \<open>delegateStatic\<close> looks at\<close>

text \<open>
  The claim as stated, "a marked static member that is not an own member of the donor
  class is never installed", fails: \<open>for (const key in candidate)\<close> also visits the
  enumerable members the class inherits. In \<open>inherit_heap\<close> class 7 extends class 5;
  \<open>greet\<close> is not an own property of class 7, it is the marked enumerable static
  method of class 5; the recipient 8 has no \<open>greet\<close>; and
  \<open>delegateStatic(recipient, [7])\<close> returns with \<open>greet\<close> installed on the recipient.
\<close>

theorem delegateStatic_installs_inherited_counterexample:
  "own_property inherit_heap 7 ''greet'' = None \<and>
   own_value inherit_heap 5 ''greet'' = Some (Ref 6) \<and>
   member inherit_heap (Ref 7) ''greet'' = Ref 6 \<and>
   is_marked inherit_heap (Ref 6) \<and>
   own_property inherit_heap 8 ''greet'' = None \<and>
   fst (delegateStatic inherit_heap (Ref 8) [Ref 7]) = Inr () \<and>
   installed_arrow (snd (delegateStatic inherit_heap (Ref 8) [Ref 7])) 8 ''greet''
     (Ref 6) (Ref 7)"
  by code_simp

text \<open>
  C7 (amended). \<open>delegateStatic\<close> looks for marks among the members that \<open>for ... in\<close>
  visits on the donor: the names whose nearest property on the donor or on its prototype
  chain is enumerable, own or inherited. A name that \<open>for ... in\<close> does not visit is
  never installed on the recipient by \<open>delegateStatic(recipient, [D])\<close>, and a marked
  function that it visits, an inherited one included, is installed when the call
  returns.
\<close>

theorem delegateStatic_enumerates_visible_enumerable:
  "set (for_in_keys h c) = {k. \<exists>p. map_of (entries h c) k = Some p \<and> enumerable p} \<and>
   (delegateStatic h (Ref r) [c] = (res, h') \<and> r < length h \<and> k \<notin> set (for_in_keys h c) \<longrightarrow>
      own_property h' r k = own_property h r k) \<and>
   (delegateStatic h (Ref r) [c] = (Inr (), h') \<and> r < length h \<and> delegable_static h r c m \<longrightarrow>
      installed_arrow h' r m (member h c m) c)"
proof (intro conjI impI; (elim conjE)?)
  show "set (for_in_keys h c) = {k. \<exists>p. map_of (entries h c) k = Some p \<and> enumerable p}"
    by (rule set_for_in_keys)
next
  assume "delegateStatic h (Ref r) [c] = (res, h')" "r < length h" "k \<notin> set (for_in_keys h c)"
  then show "own_property h' r k = own_property h r k"
    by (intro delegateStatic_keys_other_key[of h r c "for_in_keys h c" res h' k]
        delegateStatic_single)
next
  assume "delegateStatic h (Ref r) [c] = (Inr (), h')" "r < length h" "delegable_static h r c m"
  then show "installed_arrow h' r m (member h c m) c"
    using delegateStatic_installs[of h r "[]" c h' m] by simp
qed

text \<open>
  In the same store: the inherited enumerable \<open>greet\<close> is installed, the inherited
  \<open>hidden\<close>, marked but not enumerable, is not.
\<close>

theorem delegateStatic_enumerates_visible_enumerable_witness:
  "fst (delegateStatic inherit_heap (Ref 8) [Ref 7]) = Inr () \<and>
   8 < length inherit_heap \<and>
   ''hidden'' \<notin> set (for_in_keys inherit_heap (Ref 7)) \<and>
   delegable_static inherit_heap 8 (Ref 7) ''greet'' \<and>
   own_property (snd (delegateStatic inherit_heap (Ref 8) [Ref 7])) 8 ''hidden'' =
     own_property inherit_heap 8 ''hidden'' \<and>
   installed_arrow (snd (delegateStatic inherit_heap (Ref 8) [Ref 7])) 8 ''greet''
     (Ref 6) (Ref 7)"
proof -
  let ?run = "delegateStatic inherit_heap (Ref 8) [Ref 7]"
  have run: "fst ?run = Inr ()" by code_simp
  then have run': "?run = (Inr (), snd ?run)" by (metis prod.collapse)
  have r: "8 < length inherit_heap" by code_simp
  have k: "''hidden'' \<notin> set (for_in_keys inherit_heap (Ref 7))" by code_simp
  have d: "delegable_static inherit_heap 8 (Ref 7) ''greet''" by code_simp
  have m: "member inherit_heap (Ref 7) ''greet'' = Ref 6" by code_simp
  from delegateStatic_enumerates_visible_enumerable
         [of inherit_heap "Ref 7" 8 "Inr ()" "snd ?run" "''hidden''" "''greet''"]
       run run' r k d m
  show ?thesis by simp
qed

subsection \<open>C8: what \<open>DelegateMethod\<close> changes\<close>

text \<open>
  The claim as stated, "after marking \<open>f\<close> every externally observable property of
  \<open>f\<close> is unchanged, the mark being kept in a side table", fails: the decorator assigns
  \<open>isDelegated\<close> and \<open>omitFirst\<close> on the function object. In \<open>decorator_heap\<close>,
  decorating the unmarked \<open>peek\<close> of \<open>ClassOne\<close> (function 8, descriptor 14) returns
  normally; before it \<open>peek.isDelegated\<close> is \<open>undefined\<close> and \<open>for ... in\<close> visits
  nothing on \<open>peek\<close>, after it \<open>peek.isDelegated\<close> is \<open>true\<close> and \<open>for ... in\<close>
  visits \<open>isDelegated\<close> and \<open>omitFirst\<close>.
\<close>

theorem DelegateMethod_changes_function_counterexample:
  "get_member decorator_heap (Ref 14) ''value'' = Inr (Ref 8) \<and>
   fst (DelegateMethod None decorator_heap (Ref 5) ''peek'' (Ref 14)) = Inr () \<and>
   get_member decorator_heap (Ref 8) ''isDelegated'' = Inr Undefined \<and>
   get_member (snd (DelegateMethod None decorator_heap (Ref 5) ''peek'' (Ref 14))) (Ref 8)
     ''isDelegated'' = Inr (Bool True) \<and>
   for_in_keys decorator_heap (Ref 8) = [] \<and>
   for_in_keys (snd (DelegateMethod None decorator_heap (Ref 5) ''peek'' (Ref 14))) (Ref 8) =
     [''isDelegated'', ''omitFirst'']"
  by code_simp

text \<open>
  C8 (amended). \<open>DelegateMethod(omitFirst)\<close> applied to a member stores the mark on the
  function \<open>f\<close> itself (\<open>descriptor.value\<close>), as its own properties \<open>isDelegated = true\<close>
  and \<open>omitFirst\<close> (\<open>false\<close> when the argument is omitted). Nothing else changes: every
  other own property of \<open>f\<close>, every read \<open>x[k]\<close> of any value under any other name,
  the number of objects, every prototype link and call behaviour, and every object
  other than \<open>f\<close>.
\<close>

theorem DelegateMethod_marks_in_band:
  assumes "DelegateMethod omitFirst h target key descriptor = (Inr (), h')"
    and "get_member h descriptor ''value'' = Inr (Ref f)"
  shows "own_value h' f ''isDelegated'' = Some (Bool True) \<and>
         own_value h' f ''omitFirst'' =
           Some (Bool (case omitFirst of None \<Rightarrow> False | Some b \<Rightarrow> b)) \<and>
         (\<forall>k. k \<noteq> ''isDelegated'' \<and> k \<noteq> ''omitFirst'' \<longrightarrow>
            own_property h' f k = own_property h f k \<and>
            get_member h' x k = get_member h x k) \<and>
         length h' = length h \<and>
         (\<forall>a < length h. proto (h' ! a) = proto (h ! a) \<and> code (h' ! a) = code (h ! a) \<and>
            (a \<noteq> f \<longrightarrow> h' ! a = h ! a))"
proof -
  let ?flag = "case omitFirst of None \<Rightarrow> False | Some b \<Rightarrow> b"
  obtain r1 h1 where s1: "set_member h (Ref f) ''isDelegated'' (Bool True) = (r1, h1)"
    by (cases "set_member h (Ref f) ''isDelegated'' (Bool True)")
  have r1: "r1 = Inr ()"
    using assms s1 by (cases r1) (auto simp: DelegateMethod_def Let_def simp del: set_member.simps)
  note s1 = s1[unfolded r1]
  have g1: "get_member h1 descriptor ''value'' = Inr (Ref f)"
    using get_member_set_other[OF s1, of "''value''" descriptor] assms(2) by simp
  have s2: "set_member h1 (Ref f) ''omitFirst'' (Bool ?flag) = (Inr (), h')"
    using assms s1 g1 by (simp add: DelegateMethod_def Let_def del: set_member.simps)
  from s1 have u1: "f < length h"
    "h1 = h[f := (h ! f)\<lparr>props := set_own (props (h ! f)) ''isDelegated'' (Bool True)\<rparr>]"
    by (rule set_member_updates)+
  from s2 have u2: "f < length h1"
    "h' = h1[f := (h1 ! f)\<lparr>props := set_own (props (h1 ! f)) ''omitFirst'' (Bool ?flag)\<rparr>]"
    by (rule set_member_updates)+
  have "own_value h1 f ''isDelegated'' = Some (Bool True)"
    using s1 by (rule own_value_set_same)
  moreover have "own_property h' f ''isDelegated'' = own_property h1 f ''isDelegated''"
    using s2 by (rule own_property_set_other) simp
  ultimately have c1: "own_value h' f ''isDelegated'' = Some (Bool True)"
    by (simp add: own_value_def)
  have c2: "own_value h' f ''omitFirst'' = Some (Bool ?flag)"
    using s2 by (rule own_value_set_same)
  have c3: "\<forall>k. k \<noteq> ''isDelegated'' \<and> k \<noteq> ''omitFirst'' \<longrightarrow>
            own_property h' f k = own_property h f k \<and>
            get_member h' x k = get_member h x k"
  proof (intro allI impI, elim conjE)
    fix k assume k: "k \<noteq> ''isDelegated''" "k \<noteq> ''omitFirst''"
    have "own_property h' f k = own_property h1 f k"
      using s2 k(2) by (intro own_property_set_other) auto
    moreover have "own_property h1 f k = own_property h f k"
      using s1 k(1) by (intro own_property_set_other) auto
    moreover have "get_member h' x k = get_member h1 x k"
      using s2 k(2) by (intro get_member_set_other) auto
    moreover have "get_member h1 x k = get_member h x k"
      using s1 k(1) by (intro get_member_set_other) auto
    ultimately show "own_property h' f k = own_property h f k \<and>
            get_member h' x k = get_member h x k" by simp
  qed
  have c4: "length h' = length h" by (simp add: u1(2) u2(2))
  have c5: "\<forall>a < length h. proto (h' ! a) = proto (h ! a) \<and> code (h' ! a) = code (h ! a) \<and>
            (a \<noteq> f \<longrightarrow> h' ! a = h ! a)"
    using u1(1) by (auto simp: u1(2) u2(2) nth_list_update)
  from c1 c2 c3 c4 c5 show ?thesis by blast
qed

theorem DelegateMethod_marks_in_band_witness:
  "fst (DelegateMethod (Some True) decorator_heap (Ref 5) ''peek'' (Ref 14)) = Inr () \<and>
   get_member decorator_heap (Ref 14) ''value'' = Inr (Ref 8) \<and>
   own_value (snd (DelegateMethod (Some True) decorator_heap (Ref 5) ''peek'' (Ref 14)))
     8 ''isDelegated'' = Some (Bool True) \<and>
   own_value (snd (DelegateMethod (Some True) decorator_heap (Ref 5) ''peek'' (Ref 14)))
     8 ''omitFirst'' = Some (Bool True) \<and>
   get_member (snd (DelegateMethod (Some True) decorator_heap (Ref 5) ''peek'' (Ref 14)))
     (Ref 9) ''peek'' = get_member decorator_heap (Ref 9) ''peek'' \<and>
   length (snd (DelegateMethod (Some True) decorator_heap (Ref 5) ''peek'' (Ref 14))) =
     length decorator_heap"
proof -
  let ?run = "DelegateMethod (Some True) decorator_heap (Ref 5) ''peek'' (Ref 14)"
  have run: "fst ?run = Inr ()" by code_simp
  then have run': "?run = (Inr (), snd ?run)" by (metis prod.collapse)
  have v: "get_member decorator_heap (Ref 14) ''value'' = Inr (Ref 8)" by code_simp
  from DelegateMethod_marks_in_band [OF run' v, of "Ref 9"] run v
  show ?thesis by simp
qed

subsection \<open>C9: \<open>delegate\<close> looks at the immediate prototype only\<close>

text \<open>
  C9. \<open>delegate(recipient, [d])\<close> installs nothing under a name that is not an own
  property name of \<open>Object.getPrototypeOf(d)\<close>: the recipient's own property of that
  name is what it was, whether the call returns or raises. In particular a marked method
  defined only on a superclass prototype, further up the chain of \<open>d\<close>, is not
  installed. The recipient is an object of the store.
\<close>

theorem delegate_skips_inherited_methods:
  assumes "delegate h (Ref r) [d] = (res, h')" "r < length h"
    "m \<notin> set (prototype_names h d)"
  shows "own_property h' r m = own_property h r m"
proof (cases "prototype_names h d = []")
  case True
  then have "h' = h" using assms(1)
    by (auto simp: prototype_names_def split: sum.splits)
  then show ?thesis by simp
next
  case False
  then have "delegate_keys h (Ref r) d (prototype_names h d) = (res, h')"
    using assms(1) by (auto simp: prototype_names_def split: sum.splits prod.splits)
  then show ?thesis using assms(3,2) by (rule delegate_keys_other_key)
qed

text \<open>
  In the store of C7, object 12 is an instance of a class with prototype 10, which
  extends a class with prototype 9; \<open>hello\<close> is a marked method of prototype 9 and
  \<open>own\<close> a marked method of prototype 10. On the instance \<open>hello\<close> is visible and
  marked, and \<open>delegate\<close> installs \<open>own\<close> and not \<open>hello\<close>.
\<close>

theorem delegate_skips_inherited_methods_witness:
  "8 < length inherit_heap \<and>
   ''hello'' \<notin> set (prototype_names inherit_heap (Ref 12)) \<and>
   is_marked inherit_heap (member inherit_heap (Ref 12) ''hello'') \<and>
   own_property (snd (delegate inherit_heap (Ref 8) [Ref 12])) 8 ''hello'' = None \<and>
   installed_bound (snd (delegate inherit_heap (Ref 8) [Ref 12])) 8 ''own'' (Ref 11) (Ref 12)"
proof -
  let ?run = "delegate inherit_heap (Ref 8) [Ref 12]"
  have e: "?run = (fst ?run, snd ?run)" by simp
  have r: "8 < length inherit_heap" by code_simp
  have k: "''hello'' \<notin> set (prototype_names inherit_heap (Ref 12))" by code_simp
  have mk: "is_marked inherit_heap (member inherit_heap (Ref 12) ''hello'')" by code_simp
  have none: "own_property inherit_heap 8 ''hello'' = None" by code_simp
  have own: "installed_bound (snd ?run) 8 ''own'' (Ref 11) (Ref 12)" by code_simp
  from delegate_skips_inherited_methods [OF e r k] r k mk none own
  show ?thesis by simp
qed

subsection \<open>C10: the receiver is fixed when the member is bound\<close>

text \<open>
  C10. A member installed by a binder ignores the receiver it is called with. For a
  method \<open>m\<close> installed by \<open>delegate(r, [..., d, ...])\<close>, calling the function \<open>r.m\<close>
  with any \<open>this\<close> has the outcome of calling the donor's method with \<open>this = d\<close>. For
  a member \<open>k\<close> installed by \<open>delegateStatic(s, [..., c, ...])\<close>, calling the function
  \<open>s.k\<close> with any \<open>this\<close> has the outcome of calling the donor's static method with
  the donor class \<open>c\<close> as \<open>this\<close>, the recipient \<open>s\<close> being put first among the
  arguments when \<open>omitFirst\<close> is set. Recipients and donors are as in C1 and C2.
\<close>

theorem receiver_fixed_at_bind_time:
  "(delegate h (Ref r) (ds @ d # ds') = (Inr (), h') \<and> r < length h \<and> delegable h r d m \<and>
    (\<forall>d' \<in> set ds'. no_override h r d' m) \<longrightarrow>
      call_function N h' (member h' (Ref r) m) this A =
        call_function N h' (member h d m) d A) \<and>
   (delegateStatic g (Ref s) (cs @ c # cs') = (Inr (), g') \<and> s < length g \<and>
    delegable_static g s c k \<and> (\<forall>c' \<in> set cs'. no_override_static g s c' k) \<longrightarrow>
      call_function N g' (member g' (Ref s) k) this A =
        call_function N g' (member g c k) c
          (if omits_first g' (member g c k) then Ref s # A else A))"
proof (intro conjI impI; elim conjE)
  assume "delegate h (Ref r) (ds @ d # ds') = (Inr (), h')" "r < length h" "delegable h r d m"
    "\<forall>d' \<in> set ds'. no_override h r d' m"
  then have "installed_bound h' r m (member h d m) d" by (rule delegate_installs_at)
  then show "call_function N h' (member h' (Ref r) m) this A =
        call_function N h' (member h d m) d A" by (rule call_installed_bound)
next
  assume run: "delegateStatic g (Ref s) (cs @ c # cs') = (Inr (), g')" "s < length g"
    and c: "delegable_static g s c k" and n: "\<forall>c' \<in> set cs'. no_override_static g s c' k"
  from c obtain a where a: "member g c k = Ref a"
    by (cases "member g c k") (auto simp: delegable_static_def)
  from run c n have "installed_arrow g' s k (member g c k) c"
    by (rule delegateStatic_installs_at)
  then show "call_function N g' (member g' (Ref s) k) this A =
        call_function N g' (member g c k) c
          (if omits_first g' (member g c k) then Ref s # A else A)"
    unfolding a by (rule call_installed_arrow)
qed

text \<open>
  In the examples: \<open>doSomething\<close> taken off the recipient and called with \<open>this\<close>
  \<open>undefined\<close> increments the donor's \<open>value\<close>; \<open>add\<close> taken off the recipient and
  called with \<open>this = null\<close> is \<open>StaticClass.add\<close> called on \<open>StaticClass\<close>.
\<close>

theorem receiver_fixed_at_bind_time_witness:
  "fst (delegate instance_heap (Ref 10) ([] @ Ref 9 # [Ref 13])) = Inr () \<and>
   10 < length instance_heap \<and>
   delegable instance_heap 10 (Ref 9) ''doSomething'' \<and>
   no_override instance_heap 10 (Ref 13) ''doSomething'' \<and>
   call_function instance_bodies (snd (delegate instance_heap (Ref 10) ([] @ Ref 9 # [Ref 13])))
     (member (snd (delegate instance_heap (Ref 10) ([] @ Ref 9 # [Ref 13]))) (Ref 10)
        ''doSomething'')
     Undefined [] =
   call_function instance_bodies (snd (delegate instance_heap (Ref 10) ([] @ Ref 9 # [Ref 13])))
     (Ref 7) (Ref 9) [] \<and>
   (case call_function instance_bodies
           (snd (delegate instance_heap (Ref 10) ([] @ Ref 9 # [Ref 13])))
           (Ref 7) (Ref 9) [] of
      None \<Rightarrow> False
    | Some (res, h'') \<Rightarrow> res = Inr Undefined \<and> own_value h'' 9 ''value'' = Some (Num 1)) \<and>
   fst (delegateStatic static_heap (Ref 10) ([] @ Ref 5 # [Ref 11])) = Inr () \<and>
   10 < length static_heap \<and>
   delegable_static static_heap 10 (Ref 5) ''add'' \<and>
   no_override_static static_heap 10 (Ref 11) ''add'' \<and>
   call_function static_bodies (snd (delegateStatic static_heap (Ref 10) ([] @ Ref 5 # [Ref 11])))
     (member (snd (delegateStatic static_heap (Ref 10) ([] @ Ref 5 # [Ref 11]))) (Ref 10) ''add'')
     Null [Num 5, Num 10] =
   call_function static_bodies (snd (delegateStatic static_heap (Ref 10) ([] @ Ref 5 # [Ref 11])))
     (Ref 7) (Ref 5) [Num 5, Num 10]"
proof -
  let ?h' = "snd (delegate instance_heap (Ref 10) ([] @ Ref 9 # [Ref 13]))"
  let ?g' = "snd (delegateStatic static_heap (Ref 10) ([] @ Ref 5 # [Ref 11]))"
  have run: "fst (delegate instance_heap (Ref 10) ([] @ Ref 9 # [Ref 13])) = Inr ()"
    by code_simp
  then have run': "delegate instance_heap (Ref 10) ([] @ Ref 9 # [Ref 13]) = (Inr (), ?h')"
    by (metis prod.collapse)
  have r: "10 < length instance_heap" by code_simp
  have d: "delegable instance_heap 10 (Ref 9) ''doSomething''" by code_simp
  have x: "no_override instance_heap 10 (Ref 13) ''doSomething''" by code_simp
  then have x': "\<forall>d' \<in> set [Ref 13]. no_override instance_heap 10 d' ''doSomething''"
    by simp
  have m: "member instance_heap (Ref 9) ''doSomething'' = Ref 7" by code_simp
  have v: "case call_function instance_bodies ?h' (Ref 7) (Ref 9) [] of
      None \<Rightarrow> False
    | Some (res, h'') \<Rightarrow> res = Inr Undefined \<and> own_value h'' 9 ''value'' = Some (Num 1)"
    by code_simp
  have srun: "fst (delegateStatic static_heap (Ref 10) ([] @ Ref 5 # [Ref 11])) = Inr ()"
    by code_simp
  then have srun': "delegateStatic static_heap (Ref 10) ([] @ Ref 5 # [Ref 11]) = (Inr (), ?g')"
    by (metis prod.collapse)
  have s: "10 < length static_heap" by code_simp
  have c: "delegable_static static_heap 10 (Ref 5) ''add''" by code_simp
  have y: "no_override_static static_heap 10 (Ref 11) ''add''" by code_simp
  then have y': "\<forall>c' \<in> set [Ref 11]. no_override_static static_heap 10 c' ''add''"
    by simp
  have n: "member static_heap (Ref 5) ''add'' = Ref 7" by code_simp
  have o: "omits_first ?g' (Ref 7) = False" by code_simp
  from receiver_fixed_at_bind_time
         [of instance_heap 10 "[]" "Ref 9" "[Ref 13]" ?h' "''doSomething''" instance_bodies
             Undefined "[]" static_heap 10 "[]" "Ref 5" "[Ref 11]" ?g' "''add''"]
       receiver_fixed_at_bind_time
         [of instance_heap 10 "[]" "Ref 9" "[Ref 13]" ?h' "''doSomething''" static_bodies
             Null "[Num 5, Num 10]" static_heap 10 "[]" "Ref 5" "[Ref 11]" ?g' "''add''"]
       run run' r d x x' m v srun srun' s c y y' n o
  show ?thesis by simp
qed

end
